theory Spec2Isabelle
  imports Main "HOL-Library.Word"
begin

section \<open>The buffer cache of kernel/bio.c\<close>

text \<open>
  The cache is \<^verbatim>\<open>bcache\<close>: an array of \<^verbatim>\<open>struct buf\<close>, an array of bucket heads, each
  the head of a circular doubly linked list through \<^verbatim>\<open>prev\<close>/\<^verbatim>\<open>next\<close>, and one spinlock
  per bucket. A pointer to a buffer is the index of the buffer in \<^verbatim>\<open>bcache.buf\<close>; the
  buffers are a store from such pointers to records. The list hanging off
  \<^verbatim>\<open>bcache.buckets[i]\<close> is the list of the buffers met when following \<^verbatim>\<open>next\<close> from the
  head until the head comes back, in that order: inserting behind the head is \<open>#\<close>,
  unlinking is \<open>remove1\<close>. That the pointer statements of bio.c do this to the lists
  is shown below, on the links themselves (\<open>rep_binit\<close>, \<open>rep_steal\<close>,
  \<open>ring_walk\<close>).
\<close>

subsection \<open>Data\<close>

type_synonym uint = "32 word"
type_synonym uchar = "8 word"

text \<open>
  Modelled from the spec: \<^verbatim>\<open>struct buf\<close> is declared in buf.h, which is not among the
  sources. The fields are the ones bio.c reads and writes; \<^verbatim>\<open>valid\<close> is a C truth
  value, the others are \<^verbatim>\<open>uint\<close>, as the parameters and locals of bio.c they are
  compared with. The sleep lock (sleeplock.h) is the process that holds it, if any.
\<close>

record buf =
  valid :: uint
  dev :: uint
  blockno :: uint
  lock :: "nat option"
  refcnt :: uint
  lastuse :: uint
  data :: "uchar list"

text \<open>
  What one call does to the locks and to the device, in program order: the calls of
  \<^verbatim>\<open>acquire\<close>, \<^verbatim>\<open>release\<close>, \<^verbatim>\<open>acquiresleep\<close>, \<^verbatim>\<open>releasesleep\<close> and
  \<^verbatim>\<open>virtio_disk_rw\<close>.
\<close>

datatype event =
  Acquire nat
| Release nat
| AcquireSleep nat
| ReleaseSleep nat
| DiskRW nat bool

text \<open>
  The state: the buffers, the buckets, the global \<^verbatim>\<open>ticks\<close>, the device's blocks and
  the log of events. The number of buckets \<^verbatim>\<open>NBUCKET\<close> (param.h, not among the sources)
  is the length of \<open>buckets\<close>.
\<close>

record bcache =
  bufs :: "nat \<Rightarrow> buf"
  buckets :: "nat list list"
  ticks :: uint
  disk :: "uint \<times> uint \<Rightarrow> uchar list"
  events :: "event list"

text \<open>
  How a call ends when it does not return: \<^verbatim>\<open>panic\<close> with its message; asleep on the
  sleep lock of a buffer that a process holds (no other process runs in this model, so
  the call does not come back); an index outside \<^verbatim>\<open>bcache.buckets\<close> and \<^verbatim>\<open>bcache.lks\<close>,
  which C leaves undefined.
\<close>

datatype fault =
  Panic string
| Sleeps nat
| OutOfBounds int

definition NBUCKET :: "bcache \<Rightarrow> nat" where
  "NBUCKET s = length (buckets s)"

subsection \<open>Primitives that bio.c calls\<close>

text \<open>
  Modelled from the spec: spinlock.c is not among the sources. \<^verbatim>\<open>acquire\<close> and
  \<^verbatim>\<open>release\<close> of a bucket's spinlock are recorded in the log; contention between
  processors is outside this model.
\<close>

definition acquire :: "nat \<Rightarrow> bcache \<Rightarrow> bcache" where
  "acquire i s = s\<lparr>events := events s @ [Acquire i]\<rparr>"

definition release :: "nat \<Rightarrow> bcache \<Rightarrow> bcache" where
  "release i s = s\<lparr>events := events s @ [Release i]\<rparr>"

text \<open>
  Modelled from the spec: sleeplock.c is not among the sources. \<^verbatim>\<open>acquiresleep\<close> blocks
  while the lock is held and then records the caller \<open>p\<close> as the holder;
  \<^verbatim>\<open>releasesleep\<close> frees the lock; \<^verbatim>\<open>holdingsleep\<close> says whether the caller is the holder.
\<close>

definition acquiresleep :: "nat \<Rightarrow> nat \<Rightarrow> bcache \<Rightarrow> (fault + unit) \<times> bcache" where
  "acquiresleep p b s =
     (let s1 = s\<lparr>events := events s @ [AcquireSleep b]\<rparr> in
      case lock (bufs s1 b) of
        Some q \<Rightarrow> (Inl (Sleeps b), s1)
      | None \<Rightarrow> (Inr (), s1\<lparr>bufs := (bufs s1)(b := (bufs s1 b)\<lparr>lock := Some p\<rparr>)\<rparr>))"

definition releasesleep :: "nat \<Rightarrow> bcache \<Rightarrow> bcache" where
  "releasesleep b s =
     s\<lparr>bufs := (bufs s)(b := (bufs s b)\<lparr>lock := None\<rparr>),
       events := events s @ [ReleaseSleep b]\<rparr>"

definition holdingsleep :: "nat \<Rightarrow> nat \<Rightarrow> bcache \<Rightarrow> bool" where
  "holdingsleep p b s = (lock (bufs s b) = Some p)"

text \<open>
  Modelled from the spec: virtio_disk.c is not among the sources. The transfer moves one
  block between the buffer's \<^verbatim>\<open>data\<close> and the device's block \<open>(dev, blockno)\<close>:
  into the buffer when \<open>w\<close> is false, onto the device when it is true.
\<close>

definition virtio_disk_rw :: "nat \<Rightarrow> bool \<Rightarrow> bcache \<Rightarrow> bcache" where
  "virtio_disk_rw b w s =
     (let k = (dev (bufs s b), blockno (bufs s b));
          s1 = s\<lparr>events := events s @ [DiskRW b w]\<rparr>
      in if w then s1\<lparr>disk := (disk s1)(k := data (bufs s1 b))\<rparr>
         else s1\<lparr>bufs := (bufs s1)(b := (bufs s1 b)\<lparr>data := disk s1 k\<rparr>)\<rparr>)"

subsection \<open>myhash, bufinit, binit\<close>

text \<open>
  \<^verbatim>\<open>static int myhash(int x) { return x%NBUCKET; }\<close>: the \<^verbatim>\<open>uint\<close> block number is
  converted to \<^verbatim>\<open>int\<close> (two's complement), and C's \<^verbatim>\<open>%\<close> truncates towards zero, so the
  result has the sign of \<open>x\<close>. \<^verbatim>\<open>NBUCKET\<close> is a positive \<^verbatim>\<open>int\<close> constant, here \<open>n\<close>.
\<close>

definition myhash :: "nat \<Rightarrow> uint \<Rightarrow> int" where
  "myhash n x = sgn (sint x) * (\<bar>sint x\<bar> mod int n)"

text \<open>An index into \<^verbatim>\<open>bcache.buckets\<close> and \<^verbatim>\<open>bcache.lks\<close> is inside the arrays.\<close>

definition in_bounds :: "bcache \<Rightarrow> int \<Rightarrow> bool" where
  "in_bounds s i = (0 \<le> i \<and> i < int (NBUCKET s))"

definition bufinit :: "nat \<Rightarrow> uint \<Rightarrow> uint \<Rightarrow> bcache \<Rightarrow> bcache" where
  "bufinit b d bn s =
     s\<lparr>bufs := (bufs s)(b := (bufs s b)\<lparr>dev := d, blockno := bn, valid := 0, refcnt := 1\<rparr>)\<rparr>"

text \<open>
  \<^verbatim>\<open>bcache\<close> has static storage, so every field of every buffer starts as zero; the block
  size \<^verbatim>\<open>BSIZE\<close> is the one of fs.h.
\<close>

definition BSIZE :: nat where
  "BSIZE = 1024"

definition buf0 :: buf where
  "buf0 = \<lparr>valid = 0, dev = 0, blockno = 0, lock = None, refcnt = 0, lastuse = 0,
           data = replicate BSIZE 0\<rparr>"

text \<open>
  \<^verbatim>\<open>binit\<close> makes every bucket empty and then inserts \<^verbatim>\<open>buf[0]\<close>, \<^verbatim>\<open>buf[1]\<close>, ... behind the
  head of bucket 0, so the last buffer comes first. The arguments are \<^verbatim>\<open>NBUF\<close> and
  \<^verbatim>\<open>NBUCKET\<close> (param.h) and the surroundings: the tick counter and the device.
\<close>

definition binit :: "nat \<Rightarrow> nat \<Rightarrow> uint \<Rightarrow> (uint \<times> uint \<Rightarrow> uchar list) \<Rightarrow> bcache" where
  "binit nbuf nbucket t dsk =
     \<lparr>bufs = (\<lambda>_. buf0),
      buckets = (replicate nbucket [])[0 := rev [0..<nbuf]],
      ticks = t, disk = dsk, events = []\<rparr>"

subsection \<open>bget\<close>

text \<open>The first loop of \<^verbatim>\<open>bget\<close>: the first buffer of the bucket with the wanted identity.\<close>

fun lookup :: "(nat \<Rightarrow> buf) \<Rightarrow> uint \<Rightarrow> uint \<Rightarrow> nat list \<Rightarrow> nat option" where
  "lookup bs d bn [] = None"
| "lookup bs d bn (b # rest) =
     (if dev (bs b) = d \<and> blockno (bs b) = bn then Some b else lookup bs d bn rest)"

text \<open>
  The victim loops of \<^verbatim>\<open>bget\<close>, over one bucket: \<open>minticks\<close> and \<open>victm\<close> are the
  locals of the same names, \<open>None\<close> the null pointer.
\<close>

fun scan :: "(nat \<Rightarrow> buf) \<Rightarrow> nat list \<Rightarrow> uint \<Rightarrow> nat option \<Rightarrow> uint \<times> nat option" where
  "scan bs [] minticks victm = (minticks, victm)"
| "scan bs (b # rest) minticks victm =
     (if refcnt (bs b) = 0 \<and> lastuse (bs b) \<le> minticks
      then scan bs rest (lastuse (bs b)) (Some b)
      else scan bs rest minticks victm)"

text \<open>The last two statements of every returning path: sleep-lock the buffer, return it.\<close>

definition lock_and_return :: "nat \<Rightarrow> nat \<Rightarrow> bcache \<Rightarrow> (fault + nat) \<times> bcache" where
  "lock_and_return p b s =
     (case acquiresleep p b s of
        (Inl f, s') \<Rightarrow> (Inl f, s')
      | (Inr _, s') \<Rightarrow> (Inr b, s'))"

text \<open>
  The loop after the label \<^verbatim>\<open>steal\<close>, over the bucket indices still to visit; \<open>bid\<close> is
  the bucket of the wanted block, whose spinlock the caller holds since the start of
  \<^verbatim>\<open>bget\<close>. \<open>victm\<close> is null whenever an iteration starts.
\<close>

fun steal :: "nat \<Rightarrow> uint \<Rightarrow> uint \<Rightarrow> nat \<Rightarrow> nat list \<Rightarrow> bcache \<Rightarrow> (fault + nat) \<times> bcache" where
  "steal p d bn bid [] s = (Inl (Panic ''bget: no buf''), release bid s)"
| "steal p d bn bid (i # rest) s =
     (if i = bid then steal p d bn bid rest s
      else
        let s1 = acquire i s in
        case snd (scan (bufs s1) (buckets s1 ! i) (ticks s1) None) of
          None \<Rightarrow> steal p d bn bid rest (release i s1)
        | Some v \<Rightarrow>
            let s2 = bufinit v d bn s1;
                s3 = s2\<lparr>buckets := (buckets s2)[i := remove1 v (buckets s2 ! i)]\<rparr>;
                s4 = release i s3;
                s5 = s4\<lparr>buckets := (buckets s4)[bid := v # (buckets s4 ! bid)]\<rparr>;
                s6 = release bid s5
            in lock_and_return p v s6)"

definition bget :: "nat \<Rightarrow> uint \<Rightarrow> uint \<Rightarrow> bcache \<Rightarrow> (fault + nat) \<times> bcache" where
  "bget p d bn s =
     (let h = myhash (NBUCKET s) bn in
      if \<not> in_bounds s h then (Inl (OutOfBounds h), s)
      else
        let bid = nat h; s1 = acquire bid s in
        case lookup (bufs s1) d bn (buckets s1 ! bid) of
          Some b \<Rightarrow>
            lock_and_return p b
              (release bid
                 (s1\<lparr>bufs := (bufs s1)(b := (bufs s1 b)\<lparr>refcnt := refcnt (bufs s1 b) + 1\<rparr>)\<rparr>))
        | None \<Rightarrow>
            (case snd (scan (bufs s1) (buckets s1 ! bid) (ticks s1) None) of
               Some v \<Rightarrow> lock_and_return p v (release bid (bufinit v d bn s1))
             | None \<Rightarrow> steal p d bn bid [0..<NBUCKET s1] s1))"

subsection \<open>bread, bwrite, brelse, bpin, bunpin\<close>

definition bread :: "nat \<Rightarrow> uint \<Rightarrow> uint \<Rightarrow> bcache \<Rightarrow> (fault + nat) \<times> bcache" where
  "bread p d bn s =
     (case bget p d bn s of
        (Inl f, s1) \<Rightarrow> (Inl f, s1)
      | (Inr b, s1) \<Rightarrow>
          if valid (bufs s1 b) = 0
          then let s2 = virtio_disk_rw b False s1
               in (Inr b, s2\<lparr>bufs := (bufs s2)(b := (bufs s2 b)\<lparr>valid := 1\<rparr>)\<rparr>)
          else (Inr b, s1))"

definition bwrite :: "nat \<Rightarrow> nat \<Rightarrow> bcache \<Rightarrow> (fault + unit) \<times> bcache" where
  "bwrite p b s =
     (if \<not> holdingsleep p b s then (Inl (Panic ''bwrite''), s)
      else (Inr (), virtio_disk_rw b True s))"

definition brelse :: "nat \<Rightarrow> nat \<Rightarrow> bcache \<Rightarrow> (fault + unit) \<times> bcache" where
  "brelse p b s =
     (if \<not> holdingsleep p b s then (Inl (Panic ''brelse''), s)
      else
        let s1 = releasesleep b s;
            h = myhash (NBUCKET s1) (blockno (bufs s1 b))
        in if \<not> in_bounds s1 h then (Inl (OutOfBounds h), s1)
           else
             let bid = nat h;
                 s2 = acquire bid s1;
                 s3 = s2\<lparr>bufs := (bufs s2)(b := (bufs s2 b)\<lparr>refcnt := refcnt (bufs s2 b) - 1\<rparr>)\<rparr>;
                 s4 = (if refcnt (bufs s3 b) = 0
                       then s3\<lparr>bufs := (bufs s3)(b := (bufs s3 b)\<lparr>lastuse := ticks s3\<rparr>)\<rparr>
                       else s3)
             in (Inr (), release bid s4))"

definition bpin :: "nat \<Rightarrow> bcache \<Rightarrow> (fault + unit) \<times> bcache" where
  "bpin b s =
     (let h = myhash (NBUCKET s) (blockno (bufs s b)) in
      if \<not> in_bounds s h then (Inl (OutOfBounds h), s)
      else
        let bid = nat h;
            s1 = acquire bid s;
            s2 = s1\<lparr>bufs := (bufs s1)(b := (bufs s1 b)\<lparr>refcnt := refcnt (bufs s1 b) + 1\<rparr>)\<rparr>
        in (Inr (), release bid s2))"

definition bunpin :: "nat \<Rightarrow> bcache \<Rightarrow> (fault + unit) \<times> bcache" where
  "bunpin b s =
     (let h = myhash (NBUCKET s) (blockno (bufs s b)) in
      if \<not> in_bounds s h then (Inl (OutOfBounds h), s)
      else
        let bid = nat h;
            s1 = acquire bid s;
            s2 = s1\<lparr>bufs := (bufs s1)(b := (bufs s1 b)\<lparr>refcnt := refcnt (bufs s1 b) - 1\<rparr>)\<rparr>
        in (Inr (), release bid s2))"

subsection \<open>The linked lists behind the buckets\<close>

text \<open>
  What the lists of \<open>buckets\<close> stand for. A node is the null pointer, the head
  \<^verbatim>\<open>&bcache.buckets[i]\<close> or the buffer \<^verbatim>\<open>&bcache.buf[j]\<close>; the links are the \<^verbatim>\<open>next\<close> and
  \<^verbatim>\<open>prev\<close> fields of all nodes.
\<close>

datatype node = Null | Head nat | Buf nat

record links =
  "next" :: "node \<Rightarrow> node"
  prev :: "node \<Rightarrow> node"

text \<open>
  A run of nodes is linked when each is the \<^verbatim>\<open>next\<close> of the one before and that one its
  \<^verbatim>\<open>prev\<close>. Bucket \<open>i\<close> is the list \<open>xs\<close> when the head, the buffers of \<open>xs\<close> and
  the head again are linked and no buffer comes twice; the links represent the buckets
  \<open>bs\<close> when every bucket is its list and no two buckets share a buffer.
\<close>

fun linked :: "links \<Rightarrow> node list \<Rightarrow> bool" where
  "linked l (a # b # ns) = (next l a = b \<and> prev l b = a \<and> linked l (b # ns))"
| "linked l ns = True"

definition ring :: "links \<Rightarrow> nat \<Rightarrow> nat list \<Rightarrow> bool" where
  "ring l i xs = (distinct xs \<and> linked l (Head i # map Buf xs @ [Head i]))"

definition nodes :: "nat \<Rightarrow> nat list \<Rightarrow> node set" where
  "nodes i xs = insert (Head i) (Buf ` set xs)"

definition rep :: "links \<Rightarrow> nat list list \<Rightarrow> bool" where
  "rep l bs =
     ((\<forall>i<length bs. ring l i (bs ! i)) \<and>
      (\<forall>i<length bs. \<forall>j<length bs. i \<noteq> j \<longrightarrow> set (bs ! i) \<inter> set (bs ! j) = {}))"

text \<open>
  The two statements of \<^verbatim>\<open>bget\<close> that take \<^verbatim>\<open>victm\<close> out of its bucket:
  \<^verbatim>\<open>victm->next->prev = victm->prev; victm->prev->next = victm->next;\<close>
\<close>

definition unlink :: "nat \<Rightarrow> links \<Rightarrow> links" where
  "unlink v l =
     (let l1 = l\<lparr>prev := (prev l)(next l (Buf v) := prev l (Buf v))\<rparr>
      in l1\<lparr>next := (next l1)(prev l1 (Buf v) := next l1 (Buf v))\<rparr>)"

text \<open>
  The four statements of \<^verbatim>\<open>bget\<close> that attach \<^verbatim>\<open>victm\<close> to bucket \<open>i\<close>:
  \<^verbatim>\<open>victm->next = bcache.buckets[id].next; bcache.buckets[id].next->prev = victm;\<close>
  \<^verbatim>\<open>bcache.buckets[id].next = victm; victm->prev = &bcache.buckets[id];\<close>
\<close>

definition attach :: "nat \<Rightarrow> nat \<Rightarrow> links \<Rightarrow> links" where
  "attach v i l =
     (let l1 = l\<lparr>next := (next l)(Buf v := next l (Head i))\<rparr>;
          l2 = l1\<lparr>prev := (prev l1)(next l1 (Head i) := Buf v)\<rparr>;
          l3 = l2\<lparr>next := (next l2)(Head i := Buf v)\<rparr>
      in l3\<lparr>prev := (prev l3)(Buf v := Head i)\<rparr>)"

text \<open>
  The loop header \<^verbatim>\<open>for(b = bcache.buckets[i].next; b != &bcache.buckets[i]; b = b->next)\<close>,
  from the node \<open>b\<close> on: the buffers it visits, in order, when it comes back to the head
  within \<open>n\<close> steps; \<open>None\<close> when it does not, or leaves the buffers.
\<close>

fun walk :: "links \<Rightarrow> nat \<Rightarrow> node \<Rightarrow> nat \<Rightarrow> nat list option" where
  "walk l i b 0 = None"
| "walk l i b (Suc n) =
     (if b = Head i then Some []
      else case b of
        Buf x \<Rightarrow> map_option ((#) x) (walk l i (next l b) n)
      | _ \<Rightarrow> None)"

text \<open>
  The links that \<^verbatim>\<open>binit\<close> builds from zeroed memory: its second loop makes every head
  its own \<^verbatim>\<open>prev\<close> and \<^verbatim>\<open>next\<close>, its third inserts each buffer behind the head of
  bucket 0 (\<^verbatim>\<open>b->next = bcache.buckets[0].next; b->prev = &bcache.buckets[0];\<close>
  \<^verbatim>\<open>bcache.buckets[0].next->prev = b; bcache.buckets[0].next = b;\<close>).
\<close>

definition init_head :: "nat \<Rightarrow> links \<Rightarrow> links" where
  "init_head i l =
     (let l1 = l\<lparr>prev := (prev l)(Head i := Head i)\<rparr>
      in l1\<lparr>next := (next l1)(Head i := Head i)\<rparr>)"

definition insert_head :: "nat \<Rightarrow> links \<Rightarrow> links" where
  "insert_head b l =
     (let l1 = l\<lparr>next := (next l)(Buf b := next l (Head 0))\<rparr>;
          l2 = l1\<lparr>prev := (prev l1)(Buf b := Head 0)\<rparr>;
          l3 = l2\<lparr>prev := (prev l2)(next l2 (Head 0) := Buf b)\<rparr>
      in l3\<lparr>next := (next l3)(Head 0 := Buf b)\<rparr>)"

definition binit_links :: "nat \<Rightarrow> nat \<Rightarrow> links" where
  "binit_links nbuf nbucket =
     fold insert_head [0..<nbuf]
       (fold init_head [0..<nbucket] \<lparr>next = (\<lambda>_. Null), prev = (\<lambda>_. Null)\<rparr>)"

subsection \<open>Reading the log\<close>

text \<open>
  The bucket spinlocks a caller holds after a run of events, given the ones it held
  before (the latest first), and the list of these after each event of the run.
\<close>

fun held :: "nat list \<Rightarrow> event list \<Rightarrow> nat list" where
  "held h [] = h"
| "held h (Acquire i # es) = held (i # h) es"
| "held h (Release i # es) = held (remove1 i h) es"
| "held h (AcquireSleep b # es) = held h es"
| "held h (ReleaseSleep b # es) = held h es"
| "held h (DiskRW b w # es) = held h es"

fun lock_history :: "nat list \<Rightarrow> event list \<Rightarrow> nat list list" where
  "lock_history h [] = []"
| "lock_history h (e # es) = held h [e] # lock_history (held h [e]) es"

text \<open>The events a call added to the log.\<close>

definition new_events :: "bcache \<Rightarrow> bcache \<Rightarrow> event list" where
  "new_events s s' = drop (length (events s)) (events s')"

text \<open>
  The discipline of \<^verbatim>\<open>bget\<close>: at every moment no lock, or the lock of the wanted bucket
  alone, or that lock and on top of it the lock of one other bucket.
\<close>

definition two_locks :: "nat \<Rightarrow> nat list list \<Rightarrow> bool" where
  "two_locks bid hs = (\<forall>h\<in>set hs. h = [] \<or> h = [bid] \<or> (\<exists>i. i \<noteq> bid \<and> h = [i, bid]))"

text \<open>Once the caller holds no lock, it holds none from then on.\<close>

fun released_once :: "nat list list \<Rightarrow> bool" where
  "released_once [] = True"
| "released_once (h # hs) = (if h = [] then list_all (\<lambda>g. g = []) hs else released_once hs)"

text \<open>A run of events made of \<^verbatim>\<open>acquire\<close> and \<^verbatim>\<open>release\<close> calls only.\<close>

definition spin_only :: "event list \<Rightarrow> bool" where
  "spin_only evs = (\<forall>e\<in>set evs. \<exists>i. e = Acquire i \<or> e = Release i)"

text \<open>
  What the events of the loop after \<^verbatim>\<open>steal\<close> are like, for a caller that enters it
  holding the lock of bucket \<open>bid\<close>.
\<close>

definition steal_log :: "nat \<Rightarrow> event list \<Rightarrow> bool" where
  "steal_log bid evs =
     (held [bid] evs = [] \<and> two_locks bid (lock_history [bid] evs) \<and> spin_only evs \<and>
      released_once (lock_history [bid] evs))"

subsection \<open>Invariants\<close>

text \<open>
  Every \<^verbatim>\<open>lastuse\<close> stamp is a tick of the past: none lies ahead of the tick counter.
  \<^verbatim>\<open>binit\<close> starts so, and every operation keeps it so while the counter does not
  decrease.
\<close>

definition ticks_ok :: "bcache \<Rightarrow> bool" where
  "ticks_ok s = (\<forall>c. lastuse (bufs s c) \<le> ticks s)"


subsection \<open>Concrete states\<close>


text \<open>
  One bucket; its buffer carries block (1, 0), has one reference, has not been read from
  the device (\<open>valid\<close> is 0) and is not locked.
\<close>

definition c2_state :: bcache where
  "c2_state =
     \<lparr>bufs = (\<lambda>_. buf0)(0 := buf0\<lparr>dev := 1, refcnt := 1\<rparr>),
      buckets = [[0]], ticks = 0, disk = (\<lambda>_. []), events = []\<rparr>"

text \<open>One bucket holding one buffer that nobody has locked or referenced.\<close>

definition c3_state :: bcache where
  "c3_state = \<lparr>bufs = (\<lambda>_. buf0), buckets = [[0]], ticks = 0, disk = (\<lambda>_. []), events = []\<rparr>"

text \<open>
  Two buffers and two buckets, both buffers taken and never released: the state after
  \<^verbatim>\<open>binit\<close> and two calls of \<^verbatim>\<open>bget\<close> by process 7, for the blocks (1, 1) and (1, 2).
\<close>

definition c4_state :: bcache where
  "c4_state = snd (bget 7 1 2 (snd (bget 7 1 1 (binit 2 2 0 (\<lambda>_. [])))))"

text \<open>
  One bucket with three buffers, none of them the block (1, 7): buffer 0 is referenced,
  buffers 1 and 2 are free and were released at ticks 4 and 2. The tick counter is at 9.
\<close>

definition c6_state :: bcache where
  "c6_state =
     \<lparr>bufs = (\<lambda>_. buf0)
        (0 := buf0\<lparr>valid := 1, dev := 1, blockno := 0, lock := Some 3, refcnt := 1, lastuse := 1\<rparr>,
         1 := buf0\<lparr>valid := 1, dev := 1, blockno := 1, lastuse := 4\<rparr>,
         2 := buf0\<lparr>valid := 1, dev := 1, blockno := 2, lastuse := 2\<rparr>),
      buckets = [[0, 1, 2]], ticks = 9, disk = (\<lambda>_. []), events = []\<rparr>"

text \<open>
  One bucket with two buffers: buffer 0 is free and carries no block of device 1;
  buffer 1 is the block (1, 1), already read from the device (its data are the bytes
  1, 2, 3), unlocked, last released at tick 4. On the device the block (1, 0) holds
  the bytes 9, 9 and the block (1, 1) holds 1, 2, 3.
\<close>

definition c7_state :: bcache where
  "c7_state =
     \<lparr>bufs = (\<lambda>_. buf0)
        (1 := buf0\<lparr>valid := 1, dev := 1, blockno := 1, lastuse := 4, data := [1, 2, 3]\<rparr>),
      buckets = [[0, 1]], ticks = 9,
      disk = (\<lambda>_. [])((1, 0) := [9, 9], (1, 1) := [1, 2, 3]), events = []\<rparr>"

text \<open>
  One bucket with two buffers. Buffer 0 carries block (1, 0), is locked by process 7 and
  has two references (one of them a pin), and was never released; buffer 1 carries
  block (1, 1), is free and was last released at tick 5. The tick counter stands at 9.
\<close>

definition c10_state :: bcache where
  "c10_state =
     \<lparr>bufs = (\<lambda>_. buf0)
        (0 := buf0\<lparr>valid := 1, dev := 1, blockno := 0, lock := Some 7, refcnt := 2\<rparr>,
         1 := buf0\<lparr>valid := 1, dev := 1, blockno := 1, lastuse := 5\<rparr>),
      buckets = [[0, 1]], ticks = 9, disk = (\<lambda>_. []), events = []\<rparr>"

text \<open>
  A run across the wrap-around of the 32-bit tick counter, with one buffer and one
  bucket: \<^verbatim>\<open>binit\<close>, \<^verbatim>\<open>bget\<close> of the block (1, 0) and \<^verbatim>\<open>brelse\<close> at the last tick
  before the wrap, then one more tick.
\<close>

definition wrapped_state :: bcache where
  "wrapped_state =
     (let s = snd (brelse 7 0 (snd (bget 7 1 0 (binit 1 1 (- 1) (\<lambda>_. [])))))
      in s\<lparr>ticks := ticks s + 1\<rparr>)"

section \<open>Auxiliary facts\<close>

lemmas prim_defs = acquire_def release_def acquiresleep_def releasesleep_def holdingsleep_def
  lock_and_return_def bufinit_def

lemma sint_nonneg_unat:
  fixes x :: uint
  assumes "0 \<le> sint x"
  shows "sint x = int (unat x)"
proof -
  have "sint x < 2 ^ 31" using sint_lt [of x] by simp
  then have "sint x < 2 ^ 32" by simp
  with assms have "take_bit 32 (sint x) = sint x"
    by (simp add: take_bit_int_eq_self)
  with uint_sint [of x] show ?thesis by simp
qed

lemma myhash_nonneg:
  assumes "0 \<le> sint x"
  shows "myhash n x = int (unat x mod n)"
proof (cases "sint x = 0")
  case True
  with sint_nonneg_unat [OF assms] have "int (unat x) = 0" by (simp only:)
  then have "unat x = 0" by (simp only: of_nat_eq_0_iff)
  with True show ?thesis by (simp add: myhash_def)
next
  case False
  with assms have "sgn (sint x) = 1" by simp
  moreover have "\<bar>sint x\<bar> = int (unat x)"
    using sint_nonneg_unat [OF assms] by (simp only: abs_of_nat)
  ultimately show ?thesis by (simp only: myhash_def zmod_int mult_1)
qed

lemma in_bounds_myhash:
  assumes "0 \<le> sint x" and "buckets s \<noteq> []"
  shows "in_bounds s (myhash (NBUCKET s) x)"
  using assms by (simp add: myhash_nonneg in_bounds_def NBUCKET_def)

lemma lookup_None: "lookup bs d bn xs = None \<longleftrightarrow> (\<forall>c\<in>set xs. \<not> (dev (bs c) = d \<and> blockno (bs c) = bn))"
  by (induction xs) auto

lemma lookup_Some:
  "lookup bs d bn xs = Some b \<Longrightarrow> b \<in> set xs \<and> dev (bs b) = d \<and> blockno (bs b) = bn"
  by (induction xs) (auto split: if_splits)

lemma lookup_first:
  "lookup bs d bn xs = Some b \<Longrightarrow>
     \<exists>ys zs. xs = ys @ b # zs \<and> (\<forall>c\<in>set ys. \<not> (dev (bs c) = d \<and> blockno (bs c) = bn))"
proof (induction xs)
  case Nil
  then show ?case by simp
next
  case (Cons a xs)
  show ?case
  proof (cases "dev (bs a) = d \<and> blockno (bs a) = bn")
    case True
    with Cons.prems have "a = b" by simp
    then show ?thesis by (intro exI [of _ "[]"] exI [of _ xs]) simp
  next
    case False
    with Cons obtain ys zs where "xs = ys @ b # zs"
      "\<forall>c\<in>set ys. \<not> (dev (bs c) = d \<and> blockno (bs c) = bn)" by auto
    with False have "a # xs = (a # ys) @ b # zs \<and> (\<forall>c\<in>set (a # ys). \<not> (dev (bs c) = d \<and> blockno (bs c) = bn))"
      by simp
    then show ?thesis by blast
  qed
qed

lemma scan_result:
  "scan bs xs m v = (m', v') \<Longrightarrow>
     (v' = v \<and> m' = m \<and> (\<forall>c\<in>set xs. \<not> (refcnt (bs c) = 0 \<and> lastuse (bs c) \<le> m))) \<or>
     (\<exists>b\<in>set xs. v' = Some b \<and> refcnt (bs b) = 0 \<and> lastuse (bs b) = m' \<and> m' \<le> m \<and>
        (\<forall>c\<in>set xs. refcnt (bs c) = 0 \<longrightarrow> m' \<le> lastuse (bs c)))"
proof (induction xs arbitrary: m v)
  case Nil
  then show ?case by simp
next
  case (Cons a xs)
  show ?case
  proof (cases "refcnt (bs a) = 0 \<and> lastuse (bs a) \<le> m")
    case True
    with Cons.prems have "scan bs xs (lastuse (bs a)) (Some a) = (m', v')" by simp
    from Cons.IH [OF this] True show ?thesis
      by (elim disjE) (auto intro: order_trans)
  next
    case False
    with Cons.prems have "scan bs xs m v = (m', v')" by auto
    from Cons.IH [OF this] False show ?thesis
      by (elim disjE) (auto intro: order_trans)
  qed
qed

lemma scan_None:
  "snd (scan bs xs m None) = None \<longleftrightarrow> (\<forall>c\<in>set xs. \<not> (refcnt (bs c) = 0 \<and> lastuse (bs c) \<le> m))"
proof (cases "scan bs xs m None")
  case (Pair m' v')
  from scan_result [OF this] Pair show ?thesis by auto
qed

lemma scan_Some:
  assumes "snd (scan bs xs m None) = Some b"
  shows "b \<in> set xs \<and> refcnt (bs b) = 0 \<and> lastuse (bs b) \<le> m \<and>
         (\<forall>c\<in>set xs. refcnt (bs c) = 0 \<longrightarrow> lastuse (bs b) \<le> lastuse (bs c))"
proof (cases "scan bs xs m None")
  case (Pair m' v')
  from scan_result [OF this] Pair assms show ?thesis by auto
qed





lemma steal_log_base:
  "steal_log bid [Release bid]"
  "j \<noteq> bid \<Longrightarrow> steal_log bid [Acquire j, Release j, Release bid]"
  "j \<noteq> bid \<Longrightarrow> steal_log bid evs \<Longrightarrow> steal_log bid ([Acquire j, Release j] @ evs)"
  by (simp_all add: steal_log_def two_locks_def spin_only_def)

lemma lock_and_return_eq:
  "lock_and_return p v s =
     (if lock (bufs s v) = None
      then (Inr v, s\<lparr>bufs := (bufs s)(v := (bufs s v)\<lparr>lock := Some p\<rparr>),
                     events := events s @ [AcquireSleep v]\<rparr>)
      else (Inl (Sleeps v), s\<lparr>events := events s @ [AcquireSleep v]\<rparr>))"
  by (cases "lock (bufs s v)") (simp_all add: lock_and_return_def acquiresleep_def Let_def)

text \<open>
  What the loop after \<^verbatim>\<open>steal\<close> comes to: either no bucket other than \<open>bid\<close> has a
  victim and it panics, the cache unchanged; or some bucket \<open>i\<close> has the victim \<open>v\<close>,
  which is given the new identity, taken out of bucket \<open>i\<close> and put at the front of
  bucket \<open>bid\<close>.
\<close>

lemma steal_result:
  "(\<exists>evs. (\<forall>i\<in>set is. i \<noteq> bid \<longrightarrow> snd (scan (bufs s) (buckets s ! i) (ticks s) None) = None) \<and>
      steal p d bn bid is s = (Inl (Panic ''bget: no buf''), s\<lparr>events := events s @ evs\<rparr>) \<and>
      steal_log bid evs) \<or>
   (\<exists>evs i v. i \<in> set is \<and> i \<noteq> bid \<and>
      snd (scan (bufs s) (buckets s ! i) (ticks s) None) = Some v \<and>
      steal p d bn bid is s =
        lock_and_return p v
          (s\<lparr>bufs := (bufs s)(v := (bufs s v)\<lparr>dev := d, blockno := bn, valid := 0, refcnt := 1\<rparr>),
             buckets := (buckets s)[i := remove1 v (buckets s ! i), bid := v # (buckets s ! bid)],
             events := events s @ evs\<rparr>) \<and>
      steal_log bid evs)"
  (is "?none is s \<or> ?found is s")
proof (induction "is" arbitrary: s)
  case Nil
  have "steal p d bn bid [] s = (Inl (Panic ''bget: no buf''), s\<lparr>events := events s @ [Release bid]\<rparr>)"
    by (simp add: release_def)
  with steal_log_base(1) [of bid] have "?none [] s"
    by (intro exI [of _ "[Release bid]"]) simp
  then show ?case ..
next
  case (Cons j rest)
  show ?case
  proof (cases "j = bid")
    case True
    then have e: "steal p d bn bid (j # rest) s = steal p d bn bid rest s" by simp
    from Cons.IH [of s] show ?thesis
    proof
      assume "?none rest s"
      with True e have "?none (j # rest) s" by simp
      then show ?thesis ..
    next
      assume "?found rest s"
      with True e have "?found (j # rest) s" by auto
      then show ?thesis ..
    qed
  next
    case False
    show ?thesis
    proof (cases "snd (scan (bufs s) (buckets s ! j) (ticks s) None)")
      case None
      let ?s1 = "s\<lparr>events := events s @ [Acquire j, Release j]\<rparr>"
      have e: "steal p d bn bid (j # rest) s = steal p d bn bid rest ?s1"
        using False None by (simp add: acquire_def release_def Let_def)
      from Cons.IH [of ?s1] show ?thesis
      proof
        assume "?none rest ?s1"
        then obtain evs where
          n0: "\<forall>i\<in>set rest. i \<noteq> bid \<longrightarrow>
                 snd (scan (bufs ?s1) (buckets ?s1 ! i) (ticks ?s1) None) = None"
          and r0: "steal p d bn bid rest ?s1 =
            (Inl (Panic ''bget: no buf''), ?s1\<lparr>events := events ?s1 @ evs\<rparr>)"
          and l: "steal_log bid evs"
          by blast
        from n0 have
          n: "\<forall>i\<in>set rest. i \<noteq> bid \<longrightarrow> snd (scan (bufs s) (buckets s ! i) (ticks s) None) = None"
          by simp
        from r0 have r: "steal p d bn bid rest ?s1 =
            (Inl (Panic ''bget: no buf''), s\<lparr>events := events s @ [Acquire j, Release j] @ evs\<rparr>)"
          by simp
        from n None have n': "\<forall>i\<in>set (j # rest). i \<noteq> bid \<longrightarrow>
            snd (scan (bufs s) (buckets s ! i) (ticks s) None) = None" by simp
        from e r have r': "steal p d bn bid (j # rest) s =
            (Inl (Panic ''bget: no buf''), s\<lparr>events := events s @ [Acquire j, Release j] @ evs\<rparr>)"
          by (simp only:)
        note l' = steal_log_base(3) [OF False l]
        from n' r' l' have "?none (j # rest) s" by blast
        then show ?thesis ..
      next
        assume "?found rest ?s1"
        then obtain evs i v where
          n0: "i \<in> set rest" "i \<noteq> bid"
            "snd (scan (bufs ?s1) (buckets ?s1 ! i) (ticks ?s1) None) = Some v"
          and r0: "steal p d bn bid rest ?s1 =
            lock_and_return p v
              (?s1\<lparr>bufs := (bufs ?s1)(v := (bufs ?s1 v)\<lparr>dev := d, blockno := bn, valid := 0, refcnt := 1\<rparr>),
                 buckets := (buckets ?s1)[i := remove1 v (buckets ?s1 ! i), bid := v # (buckets ?s1 ! bid)],
                 events := events ?s1 @ evs\<rparr>)"
          and l: "steal_log bid evs"
          by blast
        from n0 have n: "i \<in> set rest" "i \<noteq> bid"
            "snd (scan (bufs s) (buckets s ! i) (ticks s) None) = Some v"
          by simp_all
        from r0 have r: "steal p d bn bid rest ?s1 =
            lock_and_return p v
              (s\<lparr>bufs := (bufs s)(v := (bufs s v)\<lparr>dev := d, blockno := bn, valid := 0, refcnt := 1\<rparr>),
                 buckets := (buckets s)[i := remove1 v (buckets s ! i), bid := v # (buckets s ! bid)],
                 events := events s @ [Acquire j, Release j] @ evs\<rparr>)"
          by simp
        from n have n': "i \<in> set (j # rest)" by simp
        from e r have r': "steal p d bn bid (j # rest) s =
            lock_and_return p v
              (s\<lparr>bufs := (bufs s)(v := (bufs s v)\<lparr>dev := d, blockno := bn, valid := 0, refcnt := 1\<rparr>),
                 buckets := (buckets s)[i := remove1 v (buckets s ! i), bid := v # (buckets s ! bid)],
                 events := events s @ [Acquire j, Release j] @ evs\<rparr>)"
          by (simp only:)
        note l' = steal_log_base(3) [OF False l]
        from n' n(2,3) r' l' have "?found (j # rest) s" by blast
        then show ?thesis ..
      qed
    next
      case (Some v)
      have "steal p d bn bid (j # rest) s =
        lock_and_return p v
          (s\<lparr>bufs := (bufs s)(v := (bufs s v)\<lparr>dev := d, blockno := bn, valid := 0, refcnt := 1\<rparr>),
             buckets := (buckets s)[j := remove1 v (buckets s ! j), bid := v # (buckets s ! bid)],
             events := events s @ [Acquire j, Release j, Release bid]\<rparr>)"
        using False Some by (simp add: acquire_def release_def bufinit_def Let_def)
      moreover note steal_log_base(2) [OF False]
      moreover have "j \<in> set (j # rest)" by simp
      ultimately have "?found (j # rest) s"
        using False Some by blast
      then show ?thesis ..
    qed
  qed
qed

text \<open>
  The four ways through \<^verbatim>\<open>bget\<close> once the bucket index is inside the arrays: the block
  is cached; a buffer of the bucket is recycled; a buffer of another bucket is stolen;
  no buffer is free.
\<close>

lemma bget_cases [consumes 2, case_names hit local stolen exhausted]:
  assumes "in_bounds s (myhash (NBUCKET s) bn)" and "bid = nat (myhash (NBUCKET s) bn)"
  obtains
    (hit) b where "lookup (bufs s) d bn (buckets s ! bid) = Some b"
      "bget p d bn s =
         lock_and_return p b
           (s\<lparr>bufs := (bufs s)(b := (bufs s b)\<lparr>refcnt := refcnt (bufs s b) + 1\<rparr>),
              events := events s @ [Acquire bid, Release bid]\<rparr>)"
  | (local) v where "lookup (bufs s) d bn (buckets s ! bid) = None"
      "snd (scan (bufs s) (buckets s ! bid) (ticks s) None) = Some v"
      "bget p d bn s =
         lock_and_return p v
           (s\<lparr>bufs := (bufs s)(v := (bufs s v)\<lparr>dev := d, blockno := bn, valid := 0, refcnt := 1\<rparr>),
              events := events s @ [Acquire bid, Release bid]\<rparr>)"
  | (stolen) evs i v where "lookup (bufs s) d bn (buckets s ! bid) = None"
      "snd (scan (bufs s) (buckets s ! bid) (ticks s) None) = None"
      "i < NBUCKET s" "i \<noteq> bid"
      "snd (scan (bufs s) (buckets s ! i) (ticks s) None) = Some v"
      "bget p d bn s =
         lock_and_return p v
           (s\<lparr>bufs := (bufs s)(v := (bufs s v)\<lparr>dev := d, blockno := bn, valid := 0, refcnt := 1\<rparr>),
              buckets := (buckets s)[i := remove1 v (buckets s ! i), bid := v # (buckets s ! bid)],
              events := events s @ Acquire bid # evs\<rparr>)"
      "held [bid] evs = []" "two_locks bid (lock_history [bid] evs)" "spin_only evs"
      "released_once (lock_history [bid] evs)"
  | (exhausted) evs where "lookup (bufs s) d bn (buckets s ! bid) = None"
      "\<forall>i<NBUCKET s. snd (scan (bufs s) (buckets s ! i) (ticks s) None) = None"
      "bget p d bn s = (Inl (Panic ''bget: no buf''), s\<lparr>events := events s @ Acquire bid # evs\<rparr>)"
      "held [bid] evs = []" "two_locks bid (lock_history [bid] evs)" "spin_only evs"
      "released_once (lock_history [bid] evs)"
proof (cases "lookup (bufs s) d bn (buckets s ! bid)")
  case (Some b)
  moreover have "bget p d bn s =
         lock_and_return p b
           (s\<lparr>bufs := (bufs s)(b := (bufs s b)\<lparr>refcnt := refcnt (bufs s b) + 1\<rparr>),
              events := events s @ [Acquire bid, Release bid]\<rparr>)"
    using assms Some by (simp add: bget_def Let_def acquire_def release_def)
  ultimately show thesis by (rule hit)
next
  case None
  show thesis
  proof (cases "snd (scan (bufs s) (buckets s ! bid) (ticks s) None)")
    case (Some v)
    have "bget p d bn s =
         lock_and_return p v
           (s\<lparr>bufs := (bufs s)(v := (bufs s v)\<lparr>dev := d, blockno := bn, valid := 0, refcnt := 1\<rparr>),
              events := events s @ [Acquire bid, Release bid]\<rparr>)"
      using assms None Some by (simp add: bget_def Let_def acquire_def release_def bufinit_def)
    with None Some show thesis by (rule local)
  next
    case n: None
    let ?s1 = "s\<lparr>events := events s @ [Acquire bid]\<rparr>"
    have e: "bget p d bn s = steal p d bn bid [0..<NBUCKET s] ?s1"
      using assms None n by (simp add: bget_def Let_def acquire_def NBUCKET_def)
    from steal_result [of "[0..<NBUCKET s]" bid ?s1 p d bn] show thesis
    proof (elim disjE exE conjE)
      fix evs
      assume a: "\<forall>i\<in>set [0..<NBUCKET s]. i \<noteq> bid \<longrightarrow>
                 snd (scan (bufs ?s1) (buckets ?s1 ! i) (ticks ?s1) None) = None"
        and r: "steal p d bn bid [0..<NBUCKET s] ?s1 =
                 (Inl (Panic ''bget: no buf''), ?s1\<lparr>events := events ?s1 @ evs\<rparr>)"
        and l0: "steal_log bid evs"
      from l0 have l: "held [bid] evs = []" "two_locks bid (lock_history [bid] evs)" "spin_only evs"
          "released_once (lock_history [bid] evs)" by (simp_all add: steal_log_def)
      have "\<forall>i<NBUCKET s. snd (scan (bufs s) (buckets s ! i) (ticks s) None) = None"
      proof (intro allI impI)
        fix i
        assume i: "i < NBUCKET s"
        show "snd (scan (bufs s) (buckets s ! i) (ticks s) None) = None"
        proof (cases "i = bid")
          case True
          with n show ?thesis by simp
        next
          case False
          with a i show ?thesis by simp
        qed
      qed
      moreover from e r have "bget p d bn s =
          (Inl (Panic ''bget: no buf''), s\<lparr>events := events s @ Acquire bid # evs\<rparr>)"
        by simp
      ultimately show thesis using None l by (intro exhausted [of evs])
    next
      fix evs i v
      assume a: "i \<in> set [0..<NBUCKET s]" "i \<noteq> bid"
          "snd (scan (bufs ?s1) (buckets ?s1 ! i) (ticks ?s1) None) = Some v"
        and r: "steal p d bn bid [0..<NBUCKET s] ?s1 =
            lock_and_return p v
              (?s1\<lparr>bufs := (bufs ?s1)(v := (bufs ?s1 v)\<lparr>dev := d, blockno := bn, valid := 0, refcnt := 1\<rparr>),
                 buckets := (buckets ?s1)[i := remove1 v (buckets ?s1 ! i), bid := v # (buckets ?s1 ! bid)],
                 events := events ?s1 @ evs\<rparr>)"
        and l0: "steal_log bid evs"
      from l0 have l: "held [bid] evs = []" "two_locks bid (lock_history [bid] evs)" "spin_only evs"
          "released_once (lock_history [bid] evs)" by (simp_all add: steal_log_def)
      from a have a': "i < NBUCKET s" "i \<noteq> bid"
        "snd (scan (bufs s) (buckets s ! i) (ticks s) None) = Some v" by simp_all
      from e r have "bget p d bn s =
         lock_and_return p v
           (s\<lparr>bufs := (bufs s)(v := (bufs s v)\<lparr>dev := d, blockno := bn, valid := 0, refcnt := 1\<rparr>),
              buckets := (buckets s)[i := remove1 v (buckets s ! i), bid := v # (buckets s ! bid)],
              events := events s @ Acquire bid # evs\<rparr>)"
        by simp
      with None n a' show thesis using l by (intro stolen [of i v evs])
    qed
  qed
qed

lemma in_bounds_less: "in_bounds s h \<Longrightarrow> nat h < NBUCKET s"
  by (auto simp: in_bounds_def)


lemma c4_state_eq:
  "c4_state =
     \<lparr>bufs = (\<lambda>_. buf0)
        (0 := buf0\<lparr>dev := 1, blockno := 1, valid := 0, refcnt := 1, lock := Some 7\<rparr>,
         1 := buf0\<lparr>dev := 1, blockno := 2, valid := 0, refcnt := 1, lock := Some 7\<rparr>),
      buckets = [[1], [0]], ticks = 0, disk = (\<lambda>_. []),
      events = [Acquire 1, Acquire 0, Release 0, Release 1, AcquireSleep 0,
                Acquire 0, Release 0, AcquireSleep 1]\<rparr>"
  by (simp add: c4_state_def binit_def buf0_def bget_def myhash_def in_bounds_def NBUCKET_def
      prim_defs Let_def upt_rec eval_nat_numeral fun_upd_twist)

lemma scan_snoc:
  "scan bs (xs @ [a]) m u =
     (if refcnt (bs a) = 0 \<and> lastuse (bs a) \<le> fst (scan bs xs m u)
      then (lastuse (bs a), Some a) else scan bs xs m u)"
  by (induction xs arbitrary: m u) simp_all

text \<open>On a tie the victim loop keeps the buffer it meets last.\<close>

lemma scan_last:
  "snd (scan bs xs m None) = Some v \<Longrightarrow>
     \<exists>ys zs. xs = ys @ v # zs \<and>
       (\<forall>c\<in>set zs. \<not> (refcnt (bs c) = 0 \<and> lastuse (bs c) \<le> lastuse (bs v)))"
proof (induction xs rule: rev_induct)
  case Nil
  then show ?case by simp
next
  case (snoc a xs)
  show ?case
  proof (cases "refcnt (bs a) = 0 \<and> lastuse (bs a) \<le> fst (scan bs xs m None)")
    case True
    with snoc.prems have "a = v" by (simp add: scan_snoc)
    then have "xs @ [a] = xs @ v # [] \<and>
       (\<forall>c\<in>set []. \<not> (refcnt (bs c) = 0 \<and> lastuse (bs c) \<le> lastuse (bs v)))" by simp
    then show ?thesis by blast
  next
    case False
    with snoc.prems have s: "snd (scan bs xs m None) = Some v" by (simp add: scan_snoc)
    from snoc.IH [OF s] obtain ys zs where
      x: "xs = ys @ v # zs"
      and z: "\<forall>c\<in>set zs. \<not> (refcnt (bs c) = 0 \<and> lastuse (bs c) \<le> lastuse (bs v))" by blast
    have "fst (scan bs xs m None) = lastuse (bs v)"
    proof (cases "scan bs xs m None")
      case (Pair m' v')
      from scan_result [OF this] Pair s show ?thesis by auto
    qed
    with False have "\<not> (refcnt (bs a) = 0 \<and> lastuse (bs a) \<le> lastuse (bs v))" by simp
    with x z have "xs @ [a] = ys @ v # (zs @ [a]) \<and>
       (\<forall>c\<in>set (zs @ [a]). \<not> (refcnt (bs c) = 0 \<and> lastuse (bs c) \<le> lastuse (bs v)))" by simp
    then show ?thesis by blast
  qed
qed

lemma bget_keeps_stamps:
  "lastuse (bufs (snd (bget p d bn s)) c) = lastuse (bufs s c) \<and>
   ticks (snd (bget p d bn s)) = ticks s \<and> disk (snd (bget p d bn s)) = disk s"
proof (cases "in_bounds s (myhash (NBUCKET s) bn)")
  case False
  then show ?thesis by (simp add: bget_def Let_def)
next
  case True
  from True refl show ?thesis
    by (cases rule: bget_cases [where d = d and p = p]) (simp_all add: lock_and_return_eq)
qed

text \<open>
  \<open>ticks_ok\<close> holds after \<^verbatim>\<open>binit\<close>, is kept by every operation of bio.c, and is kept
  when the tick counter moves to a value that is not smaller.
\<close>

lemma ticks_ok_kept:
  "ticks_ok (binit nbuf nbucket t dsk)"
  "ticks_ok s \<Longrightarrow> ticks_ok (snd (bget p d bn s))"
  "ticks_ok s \<Longrightarrow> ticks_ok (snd (bread p d bn s))"
  "ticks_ok s \<Longrightarrow> ticks_ok (snd (bwrite p b s))"
  "ticks_ok s \<Longrightarrow> ticks_ok (snd (brelse p b s))"
  "ticks_ok s \<Longrightarrow> ticks_ok (snd (bpin b s))"
  "ticks_ok s \<Longrightarrow> ticks_ok (snd (bunpin b s))"
  "ticks_ok s \<Longrightarrow> ticks s \<le> t \<Longrightarrow> ticks_ok (s\<lparr>ticks := t\<rparr>)"
proof -
  show "ticks_ok (binit nbuf nbucket t dsk)"
    by (simp add: ticks_ok_def binit_def buf0_def)
  show g: "ticks_ok s \<Longrightarrow> ticks_ok (snd (bget p d bn s))" for s
    by (simp add: ticks_ok_def bget_keeps_stamps)
  show "ticks_ok s \<Longrightarrow> ticks_ok (snd (bread p d bn s))"
  proof -
    assume a: "ticks_ok s"
    obtain r s1 where e: "bget p d bn s = (r, s1)" by (cases "bget p d bn s")
    with g [OF a] have "ticks_ok s1" by simp
    with e show ?thesis
      by (cases r) (simp_all add: bread_def ticks_ok_def virtio_disk_rw_def Let_def)
  qed
  show "ticks_ok s \<Longrightarrow> ticks_ok (snd (bwrite p b s))"
    by (simp add: ticks_ok_def bwrite_def virtio_disk_rw_def Let_def)
  show "ticks_ok s \<Longrightarrow> ticks_ok (snd (brelse p b s))"
    by (simp add: ticks_ok_def brelse_def Let_def acquire_def release_def releasesleep_def)
  show "ticks_ok s \<Longrightarrow> ticks_ok (snd (bpin b s))"
    by (simp add: ticks_ok_def bpin_def Let_def acquire_def release_def)
  show "ticks_ok s \<Longrightarrow> ticks_ok (snd (bunpin b s))"
    by (simp add: ticks_ok_def bunpin_def Let_def acquire_def release_def)
  show "ticks_ok s \<Longrightarrow> ticks s \<le> t \<Longrightarrow> ticks_ok (s\<lparr>ticks := t\<rparr>)"
    by (auto simp: ticks_ok_def intro: order_trans)
qed

text \<open>
  What the victim loop of the wanted bucket does whenever a free buffer is within its
  reach, that is, some member of the bucket has reference count 0 and a \<^verbatim>\<open>lastuse\<close>
  that is not ahead of \<^verbatim>\<open>ticks\<close>, where the loop starts its minimum. On a miss the buffer
  \<open>v\<close> that \<^verbatim>\<open>bget\<close> hands out is then a member of the bucket with reference count 0
  whose \<^verbatim>\<open>lastuse\<close> is the least among all such members (on a tie, the one latest in
  list order); after the call it carries the wanted \<^verbatim>\<open>dev\<close> and \<^verbatim>\<open>blockno\<close>,
  \<^verbatim>\<open>valid = 0\<close> and reference count 1, and no other buffer and no bucket has changed.
\<close>

lemma bget_local_eviction:
  assumes "in_bounds s (myhash (NBUCKET s) bn)"
    and "\<forall>c\<in>set (buckets s ! nat (myhash (NBUCKET s) bn)).
           \<not> (dev (bufs s c) = d \<and> blockno (bufs s c) = bn)"
    and "\<exists>c\<in>set (buckets s ! nat (myhash (NBUCKET s) bn)).
           refcnt (bufs s c) = 0 \<and> lastuse (bufs s c) \<le> ticks s"
  shows "\<exists>v\<in>set (buckets s ! nat (myhash (NBUCKET s) bn)).
           refcnt (bufs s v) = 0 \<and>
           (\<forall>c\<in>set (buckets s ! nat (myhash (NBUCKET s) bn)).
              refcnt (bufs s c) = 0 \<longrightarrow> lastuse (bufs s v) \<le> lastuse (bufs s c)) \<and>
           (\<exists>ys zs. buckets s ! nat (myhash (NBUCKET s) bn) = ys @ v # zs \<and>
              (\<forall>c\<in>set zs. \<not> (refcnt (bufs s c) = 0 \<and> lastuse (bufs s c) \<le> lastuse (bufs s v)))) \<and>
           fst (bget p d bn s) = (if lock (bufs s v) = None then Inr v else Inl (Sleeps v)) \<and>
           dev (bufs (snd (bget p d bn s)) v) = d \<and>
           blockno (bufs (snd (bget p d bn s)) v) = bn \<and>
           valid (bufs (snd (bget p d bn s)) v) = 0 \<and>
           refcnt (bufs (snd (bget p d bn s)) v) = 1 \<and>
           (lock (bufs s v) = None \<longrightarrow> lock (bufs (snd (bget p d bn s)) v) = Some p) \<and>
           (\<forall>c. c \<noteq> v \<longrightarrow> bufs (snd (bget p d bn s)) c = bufs s c) \<and>
           buckets (snd (bget p d bn s)) = buckets s"
  using assms(1) refl
proof (cases rule: bget_cases [where d = d and p = p])
  case (hit b)
  from lookup_Some [OF hit(1)] assms(2) show ?thesis by blast
next
  case (local v)
  note s = scan_Some [OF local(2)] scan_last [OF local(2)]
  from local(3) have pf:
    "fst (bget p d bn s) = (if lock (bufs s v) = None then Inr v else Inl (Sleeps v)) \<and>
     dev (bufs (snd (bget p d bn s)) v) = d \<and>
     blockno (bufs (snd (bget p d bn s)) v) = bn \<and>
     valid (bufs (snd (bget p d bn s)) v) = 0 \<and>
     refcnt (bufs (snd (bget p d bn s)) v) = 1 \<and>
     (lock (bufs s v) = None \<longrightarrow> lock (bufs (snd (bget p d bn s)) v) = Some p) \<and>
     (\<forall>c. c \<noteq> v \<longrightarrow> bufs (snd (bget p d bn s)) c = bufs s c) \<and>
     buckets (snd (bget p d bn s)) = buckets s"
    by (simp add: lock_and_return_eq)
  show ?thesis
  proof (rule bexI [of _ v])
    from s(1) show "v \<in> set (buckets s ! nat (myhash (NBUCKET s) bn))" by simp
    from s(1) have "refcnt (bufs s v) = 0 \<and>
           (\<forall>c\<in>set (buckets s ! nat (myhash (NBUCKET s) bn)).
              refcnt (bufs s c) = 0 \<longrightarrow> lastuse (bufs s v) \<le> lastuse (bufs s c))"
      by simp
    with s(2) pf show "refcnt (bufs s v) = 0 \<and>
           (\<forall>c\<in>set (buckets s ! nat (myhash (NBUCKET s) bn)).
              refcnt (bufs s c) = 0 \<longrightarrow> lastuse (bufs s v) \<le> lastuse (bufs s c)) \<and>
           (\<exists>ys zs. buckets s ! nat (myhash (NBUCKET s) bn) = ys @ v # zs \<and>
              (\<forall>c\<in>set zs. \<not> (refcnt (bufs s c) = 0 \<and> lastuse (bufs s c) \<le> lastuse (bufs s v)))) \<and>
           fst (bget p d bn s) = (if lock (bufs s v) = None then Inr v else Inl (Sleeps v)) \<and>
           dev (bufs (snd (bget p d bn s)) v) = d \<and>
           blockno (bufs (snd (bget p d bn s)) v) = bn \<and>
           valid (bufs (snd (bget p d bn s)) v) = 0 \<and>
           refcnt (bufs (snd (bget p d bn s)) v) = 1 \<and>
           (lock (bufs s v) = None \<longrightarrow> lock (bufs (snd (bget p d bn s)) v) = Some p) \<and>
           (\<forall>c. c \<noteq> v \<longrightarrow> bufs (snd (bget p d bn s)) c = bufs s c) \<and>
           buckets (snd (bget p d bn s)) = buckets s"
      by (elim conjE) (intro conjI; assumption)
  qed
next
  case (stolen evs i v)
  from assms(3) obtain c where "c \<in> set (buckets s ! nat (myhash (NBUCKET s) bn))"
      "refcnt (bufs s c) = 0 \<and> lastuse (bufs s c) \<le> ticks s"
    by blast
  with stolen(2) have False by (simp only: scan_None)
  then show ?thesis ..
next
  case (exhausted evs)
  from assms(3) obtain c where "c \<in> set (buckets s ! nat (myhash (NBUCKET s) bn))"
      "refcnt (bufs s c) = 0 \<and> lastuse (bufs s c) \<le> ticks s"
    by blast
  moreover from exhausted(2) in_bounds_less [OF assms(1)]
  have "snd (scan (bufs s) (buckets s ! nat (myhash (NBUCKET s) bn)) (ticks s) None) = None"
    by simp
  ultimately have False by (simp only: scan_None)
  then show ?thesis ..
qed

lemma bget_local_eviction_instance:
  "in_bounds c6_state (myhash (NBUCKET c6_state) 7) \<and>
   buckets c6_state ! nat (myhash (NBUCKET c6_state) 7) = [0, 1, 2] \<and>
   blockno (bufs c6_state 0) = 0 \<and> blockno (bufs c6_state 1) = 1 \<and>
   blockno (bufs c6_state 2) = 2 \<and>
   (\<exists>c\<in>set (buckets c6_state ! nat (myhash (NBUCKET c6_state) 7)).
      refcnt (bufs c6_state c) = 0 \<and> lastuse (bufs c6_state c) \<le> ticks c6_state) \<and>
   (\<exists>v\<in>set (buckets c6_state ! nat (myhash (NBUCKET c6_state) 7)).
      refcnt (bufs c6_state v) = 0 \<and>
      fst (bget 5 1 7 c6_state) = (if lock (bufs c6_state v) = None then Inr v else Inl (Sleeps v)) \<and>
      dev (bufs (snd (bget 5 1 7 c6_state)) v) = 1 \<and>
      blockno (bufs (snd (bget 5 1 7 c6_state)) v) = 7 \<and>
      valid (bufs (snd (bget 5 1 7 c6_state)) v) = 0 \<and>
      refcnt (bufs (snd (bget 5 1 7 c6_state)) v) = 1)"
proof -
  have i: "in_bounds c6_state (myhash (NBUCKET c6_state) 7)"
    by (simp add: c6_state_def in_bounds_def myhash_def NBUCKET_def)
  have m: "\<forall>c\<in>set (buckets c6_state ! nat (myhash (NBUCKET c6_state) 7)).
      \<not> (dev (bufs c6_state c) = 1 \<and> blockno (bufs c6_state c) = 7)"
    by (simp add: c6_state_def buf0_def myhash_def NBUCKET_def)
  have f: "\<exists>c\<in>set (buckets c6_state ! nat (myhash (NBUCKET c6_state) 7)).
      refcnt (bufs c6_state c) = 0 \<and> lastuse (bufs c6_state c) \<le> ticks c6_state"
    by (simp add: c6_state_def buf0_def myhash_def NBUCKET_def)
  from bget_local_eviction [OF i m f, of 5] obtain v where
    "v \<in> set (buckets c6_state ! nat (myhash (NBUCKET c6_state) 7))"
    "refcnt (bufs c6_state v) = 0"
    "fst (bget 5 1 7 c6_state) = (if lock (bufs c6_state v) = None then Inr v else Inl (Sleeps v))"
    "dev (bufs (snd (bget 5 1 7 c6_state)) v) = 1"
    "blockno (bufs (snd (bget 5 1 7 c6_state)) v) = 7"
    "valid (bufs (snd (bget 5 1 7 c6_state)) v) = 0"
    "refcnt (bufs (snd (bget 5 1 7 c6_state)) v) = 1"
    by (elim bexE conjE)
  then have "\<exists>v\<in>set (buckets c6_state ! nat (myhash (NBUCKET c6_state) 7)).
      refcnt (bufs c6_state v) = 0 \<and>
      fst (bget 5 1 7 c6_state) = (if lock (bufs c6_state v) = None then Inr v else Inl (Sleeps v)) \<and>
      dev (bufs (snd (bget 5 1 7 c6_state)) v) = 1 \<and>
      blockno (bufs (snd (bget 5 1 7 c6_state)) v) = 7 \<and>
      valid (bufs (snd (bget 5 1 7 c6_state)) v) = 0 \<and>
      refcnt (bufs (snd (bget 5 1 7 c6_state)) v) = 1"
    by (intro bexI [of _ v] conjI)
  moreover have "buckets c6_state ! nat (myhash (NBUCKET c6_state) 7) = [0, 1, 2]"
    "blockno (bufs c6_state 0) = 0" "blockno (bufs c6_state 1) = 1"
    "blockno (bufs c6_state 2) = 2"
    by (simp_all add: c6_state_def buf0_def myhash_def NBUCKET_def)
  ultimately show ?thesis using i f by (intro conjI)
qed

text \<open>While \<open>ticks_ok\<close> holds, every free buffer is within reach.\<close>

lemma ticks_ok_within_reach:
  assumes "ticks_ok s" and "\<exists>c\<in>set xs. refcnt (bufs s c) = 0"
  shows "\<exists>c\<in>set xs. refcnt (bufs s c) = 0 \<and> lastuse (bufs s c) \<le> ticks s"
  using assms by (auto simp: ticks_ok_def)

lemma spin_only_no_disk: "spin_only evs \<Longrightarrow> DiskRW c w \<notin> set evs"
  by (auto simp: spin_only_def)

lemma new_events_append [simp]: "events s' = events s @ evs \<Longrightarrow> new_events s s' = evs"
  by (simp add: new_events_def)

text \<open>
  What \<^verbatim>\<open>bget\<close> promises when it returns: no device transfer happened, the buffer has the
  wanted identity and is locked by the caller; and if the buffer is valid, it was found
  by the first loop and only its reference count and lock have changed.
\<close>

lemma bget_post:
  assumes "bget p d bn s = (r, s1)"
  shows "(\<forall>c w. DiskRW c w \<notin> set (new_events s s1)) \<and> disk s1 = disk s \<and>
         (\<forall>b. r = Inr b \<longrightarrow>
            dev (bufs s1 b) = d \<and> blockno (bufs s1 b) = bn \<and> lock (bufs s1 b) = Some p \<and>
            (valid (bufs s1 b) \<noteq> 0 \<longrightarrow>
               lookup (bufs s) d bn (buckets s ! nat (myhash (NBUCKET s) bn)) = Some b \<and>
               bufs s1 = (bufs s)(b := (bufs s b)\<lparr>refcnt := refcnt (bufs s b) + 1, lock := Some p\<rparr>) \<and>
               buckets s1 = buckets s))"
proof (cases "in_bounds s (myhash (NBUCKET s) bn)")
  case False
  with assms have "r = Inl (OutOfBounds (myhash (NBUCKET s) bn))" "s1 = s"
    by (auto simp: bget_def Let_def)
  then show ?thesis by (simp add: new_events_def)
next
  case True
  from True refl show ?thesis
  proof (cases rule: bget_cases [where d = d and p = p])
    case (hit b)
    note l = lookup_Some [OF hit(1)]
    show ?thesis
    proof (cases "lock (bufs s b)")
      case None
      with hit(2) assms have "r = Inr b"
        "s1 = s\<lparr>bufs := (bufs s)(b := (bufs s b)\<lparr>refcnt := refcnt (bufs s b) + 1, lock := Some p\<rparr>),
               events := events s @ [Acquire (nat (myhash (NBUCKET s) bn)),
                                     Release (nat (myhash (NBUCKET s) bn)), AcquireSleep b]\<rparr>"
        by (simp_all add: lock_and_return_eq)
      with l hit(1) show ?thesis by simp
    next
      case (Some q)
      with hit(2) assms have "r = Inl (Sleeps b)"
        "events s1 = events s @ [Acquire (nat (myhash (NBUCKET s) bn)),
                                 Release (nat (myhash (NBUCKET s) bn)), AcquireSleep b]"
        "disk s1 = disk s"
        by (auto simp: lock_and_return_eq)
      then show ?thesis by simp
    qed
  next
    case (local v)
    show ?thesis
    proof (cases "lock (bufs s v)")
      case None
      with local(3) assms have "r = Inr v"
        "s1 = s\<lparr>bufs := (bufs s)(v := (bufs s v)\<lparr>dev := d, blockno := bn, valid := 0, refcnt := 1,
                                                 lock := Some p\<rparr>),
               events := events s @ [Acquire (nat (myhash (NBUCKET s) bn)),
                                     Release (nat (myhash (NBUCKET s) bn)), AcquireSleep v]\<rparr>"
        by (simp_all add: lock_and_return_eq)
      then show ?thesis by simp
    next
      case (Some q)
      with local(3) assms have "r = Inl (Sleeps v)"
        "events s1 = events s @ [Acquire (nat (myhash (NBUCKET s) bn)),
                                 Release (nat (myhash (NBUCKET s) bn)), AcquireSleep v]"
        "disk s1 = disk s"
        by (auto simp: lock_and_return_eq)
      then show ?thesis by simp
    qed
  next
    case (stolen evs i v)
    note n = spin_only_no_disk [OF stolen(9)]
    show ?thesis
    proof (cases "lock (bufs s v)")
      case None
      with stolen(6) assms have "r = Inr v"
        "bufs s1 = (bufs s)(v := (bufs s v)\<lparr>dev := d, blockno := bn, valid := 0, refcnt := 1,
                                              lock := Some p\<rparr>)"
        "events s1 = events s @ (Acquire (nat (myhash (NBUCKET s) bn)) # evs @ [AcquireSleep v])"
        "disk s1 = disk s"
        by (auto simp: lock_and_return_eq)
      with n show ?thesis by simp
    next
      case (Some q)
      with stolen(6) assms have "r = Inl (Sleeps v)"
        "events s1 = events s @ (Acquire (nat (myhash (NBUCKET s) bn)) # evs @ [AcquireSleep v])"
        "disk s1 = disk s"
        by (auto simp: lock_and_return_eq)
      with n show ?thesis by simp
    qed
  next
    case (exhausted evs)
    note n = spin_only_no_disk [OF exhausted(6)]
    from exhausted(3) assms have "r = Inl (Panic ''bget: no buf'')"
      "events s1 = events s @ (Acquire (nat (myhash (NBUCKET s) bn)) # evs)" "disk s1 = disk s"
      by auto
    with n show ?thesis by simp
  qed
qed

lemma bget_cached:
  assumes "in_bounds s (myhash (NBUCKET s) bn)"
    and "lookup (bufs s) d bn (buckets s ! nat (myhash (NBUCKET s) bn)) = Some b"
  shows "fst (bget p d bn s) = (if lock (bufs s b) = None then Inr b else Inl (Sleeps b)) \<and>
         valid (bufs (snd (bget p d bn s)) b) = valid (bufs s b) \<and>
         data (bufs (snd (bget p d bn s)) b) = data (bufs s b)"
  using assms(1) refl
proof (cases rule: bget_cases [where d = d and p = p])
  case (hit c)
  with assms(2) have "c = b" by simp
  with hit(2) show ?thesis by (simp add: lock_and_return_eq)
qed (use assms(2) in simp_all)









subsection \<open>The linked lists behind the buckets\<close>

lemma linked_append:
  "linked l (xs @ a # ys) \<longleftrightarrow> linked l (xs @ [a]) \<and> linked l (a # ys)"
  by (induction l xs rule: linked.induct) (auto simp: Cons_eq_append_conv)

lemma linked_frame:
  assumes "linked l ns"
    and "\<forall>a\<in>set (butlast ns). next l' a = next l a"
    and "\<forall>b\<in>set (tl ns). prev l' b = prev l b"
  shows "linked l' ns"
  using assms by (induction l ns rule: linked.induct) auto

lemma linked_cut:
  assumes "linked l (L @ a # Buf v # c # R)"
    and "a \<notin> set L" and "c \<notin> set (tl (L @ [a]))" and "a \<notin> set (butlast (c # R))"
    and "c \<notin> set R" and "c \<noteq> Buf v"
  shows "linked (unlink v l) (L @ a # c # R)"
proof -
  from assms(1) have l1: "linked l (L @ [a])" and l2: "linked l (a # Buf v # c # R)"
    by (simp_all add: linked_append [of l L a "Buf v # c # R"])
  from l2 have f: "next l a = Buf v" "prev l (Buf v) = a" "next l (Buf v) = c" "prev l c = Buf v"
    and l3: "linked l (c # R)" by simp_all
  from f assms(6) have u: "unlink v l = l\<lparr>prev := (prev l)(c := a), next := (next l)(a := c)\<rparr>"
    by (simp add: unlink_def Let_def)
  have "linked (unlink v l) (L @ [a])"
  proof (rule linked_frame [OF l1])
    from assms(2) show "\<forall>x\<in>set (butlast (L @ [a])). next (unlink v l) x = next l x"
      by (auto simp: u)
    from assms(3) show "\<forall>y\<in>set (tl (L @ [a])). prev (unlink v l) y = prev l y"
      by (auto simp: u)
  qed
  moreover have "linked (unlink v l) (c # R)"
  proof (rule linked_frame [OF l3])
    from assms(4) show "\<forall>x\<in>set (butlast (c # R)). next (unlink v l) x = next l x"
      by (auto simp: u)
    from assms(5) show "\<forall>y\<in>set (tl (c # R)). prev (unlink v l) y = prev l y"
      by (auto simp: u)
  qed
  moreover have "next (unlink v l) a = c" "prev (unlink v l) c = a" by (simp_all add: u)
  ultimately show ?thesis by (simp add: linked_append [of "unlink v l" L a "c # R"])
qed

text \<open>Taking a buffer out of its bucket is \<open>remove1\<close> on the list, and leaves the other buckets alone.\<close>

lemma ring_unlink:
  assumes "ring l i xs" and "v \<in> set xs"
  shows "ring (unlink v l) i (remove1 v xs)"
proof -
  from assms(2) obtain ys zs where x: "xs = ys @ v # zs" by (auto simp: in_set_conv_decomp)
  from assms(1) x have d: "distinct (ys @ v # zs)"
    and l: "linked l (Head i # map Buf ys @ Buf v # map Buf zs @ [Head i])"
    by (simp_all add: ring_def)
  from d have r: "remove1 v xs = ys @ zs" by (simp add: x remove1_append)
  obtain L a where la: "Head i # map Buf ys = L @ [a]"
    by (cases "Head i # map Buf ys" rule: rev_cases) auto
  obtain c R where cr: "map Buf zs @ [Head i] = c # R"
    by (cases "map Buf zs @ [Head i]") auto
  have dl: "distinct (Head i # map Buf ys)" using d by (auto simp: distinct_map inj_on_def)
  have dr: "distinct (map Buf zs @ [Head i])" using d by (auto simp: distinct_map inj_on_def)
  from dl la have c1: "a \<notin> set L" by (metis distinct_append distinct.simps(2) disjoint_iff list.set_intros(1) not_distinct_conv_prefix append.right_neutral)
  have c_in: "c \<in> set (map Buf zs @ [Head i])" using cr by (metis list.set_intros(1))
  have a_in: "a \<in> set (Head i # map Buf ys)" using la by (metis in_set_conv_decomp)
  have c2: "c \<notin> set (tl (L @ [a]))"
    using c_in d la [symmetric] by auto
  have c3: "a \<notin> set (butlast (c # R))"
    using a_in d cr [symmetric] by auto
  from dr cr have c4: "c \<notin> set R" by (metis distinct.simps(2))
  have c5: "c \<noteq> Buf v" using c_in d by auto
  from l la cr have "linked l (L @ a # Buf v # c # R)"
    by (metis append.assoc append_Cons append_Nil)
  from linked_cut [OF this c1 c2 c3 c4 c5] have "linked (unlink v l) (L @ a # c # R)" .
  with la cr have "linked (unlink v l) (Head i # map Buf ys @ map Buf zs @ [Head i])"
    by (metis append.assoc append_Cons append_Nil)
  with d r show ?thesis by (simp add: ring_def)
qed

lemma ring_frame:
  assumes "ring l j ys"
    and "\<forall>x\<in>nodes j ys. next l' x = next l x"
    and "\<forall>x\<in>nodes j ys. prev l' x = prev l x"
  shows "ring l' j ys"
proof -
  from assms(1) have "linked l (Head j # map Buf ys @ [Head j])" by (simp add: ring_def)
  then have "linked l' (Head j # map Buf ys @ [Head j])"
  proof (rule linked_frame)
    from assms(2) show "\<forall>a\<in>set (butlast (Head j # map Buf ys @ [Head j])). next l' a = next l a"
      by (auto simp: nodes_def butlast_append)
    from assms(3) show "\<forall>b\<in>set (tl (Head j # map Buf ys @ [Head j])). prev l' b = prev l b"
      by (auto simp: nodes_def)
  qed
  with assms(1) show ?thesis by (simp add: ring_def)
qed

lemma linked_next_in:
  "linked l (a # ns) \<Longrightarrow> ns \<noteq> [] \<Longrightarrow> next l a = hd ns"
  by (cases ns) simp_all

lemma ring_neighbours:
  assumes "ring l i xs" and "v \<in> set xs"
  shows "next l (Buf v) \<in> nodes i xs \<and> prev l (Buf v) \<in> nodes i xs \<and> next l (Buf v) \<noteq> Buf v"
proof -
  from assms(2) obtain ys zs where x: "xs = ys @ v # zs" by (auto simp: in_set_conv_decomp)
  from assms(1) x have d: "distinct (ys @ v # zs)"
    and l: "linked l (Head i # map Buf ys @ Buf v # map Buf zs @ [Head i])"
    by (simp_all add: ring_def)
  obtain L a where la: "Head i # map Buf ys = L @ [a]"
    by (cases "Head i # map Buf ys" rule: rev_cases) auto
  obtain c R where cr: "map Buf zs @ [Head i] = c # R"
    by (cases "map Buf zs @ [Head i]") auto
  have c_in: "c \<in> set (map Buf zs @ [Head i])" using cr by (metis list.set_intros(1))
  have a_in: "a \<in> set (Head i # map Buf ys)" using la by (metis in_set_conv_decomp)
  from l la cr have "linked l (L @ a # Buf v # c # R)"
    by (metis append.assoc append_Cons append_Nil)
  then have "linked l (a # Buf v # c # R)"
    by (simp add: linked_append [of l L a "Buf v # c # R"])
  then have "prev l (Buf v) = a" "next l (Buf v) = c" by simp_all
  with a_in c_in d show ?thesis by (auto simp: nodes_def x)
qed

lemma ring_head_next:
  assumes "ring l i xs"
  shows "next l (Head i) \<in> nodes i xs \<and> (\<forall>v. v \<notin> set xs \<longrightarrow> next l (Head i) \<noteq> Buf v)"
proof (cases xs)
  case Nil
  with assms show ?thesis by (simp add: ring_def nodes_def)
next
  case (Cons x xs')
  with assms show ?thesis by (auto simp: ring_def nodes_def)
qed

lemma ring_unlink_other:
  assumes "ring l i xs" and "v \<in> set xs" and "ring l j ys" and "j \<noteq> i"
    and "set xs \<inter> set ys = {}"
  shows "ring (unlink v l) j ys"
proof (rule ring_frame [OF assms(3)])
  note n = ring_neighbours [OF assms(1,2)]
  have dj: "x \<notin> nodes j ys" if "x \<in> nodes i xs" for x
    using that assms(4,5) by (auto simp: nodes_def)
  from n dj show "\<forall>x\<in>nodes j ys. next (unlink v l) x = next l x"
    by (auto simp: unlink_def Let_def)
  from n dj show "\<forall>x\<in>nodes j ys. prev (unlink v l) x = prev l x"
    by (auto simp: unlink_def Let_def)
qed

text \<open>Attaching a buffer to a bucket is \<open>#\<close> on the list, and leaves the other buckets alone.\<close>

lemma ring_attach:
  assumes "ring l i xs" and "v \<notin> set xs"
  shows "ring (attach v i l) i (v # xs)"
proof -
  obtain c R where cr: "map Buf xs @ [Head i] = c # R"
    by (cases "map Buf xs @ [Head i]") auto
  from assms(1) cr have d: "distinct xs" and l: "linked l (Head i # c # R)"
    by (simp_all add: ring_def)
  then have n: "next l (Head i) = c" and l': "linked l (c # R)" by simp_all
  have c_in: "c \<in> set (map Buf xs @ [Head i])" using cr by (metis list.set_intros(1))
  with assms(2) have cv: "c \<noteq> Buf v" by auto
  have dc: "distinct (c # R)" using d cr [symmetric] by (auto simp: distinct_map inj_on_def)
  have u: "attach v i l =
      l\<lparr>next := (next l)(Buf v := c, Head i := Buf v), prev := (prev l)(c := Buf v, Buf v := Head i)\<rparr>"
    by (simp add: attach_def Let_def n)
  have "linked (attach v i l) (c # R)"
  proof (rule linked_frame [OF l'])
    have "\<forall>x\<in>set (butlast (c # R)). x \<noteq> Buf v \<and> x \<noteq> Head i"
      using assms(2) cr [symmetric] by (auto simp: butlast_append)
    then show "\<forall>x\<in>set (butlast (c # R)). next (attach v i l) x = next l x"
      by (simp add: u)
    have "set R \<subseteq> set (map Buf xs @ [Head i])" using cr by (metis set_subset_Cons)
    then have "\<forall>y\<in>set (tl (c # R)). y \<noteq> c \<and> y \<noteq> Buf v"
      using dc assms(2) by auto
    then show "\<forall>y\<in>set (tl (c # R)). prev (attach v i l) y = prev l y"
      by (simp add: u)
  qed
  with cv have "linked (attach v i l) (Head i # Buf v # c # R)" by (simp add: u)
  with cr have "linked (attach v i l) (Head i # map Buf (v # xs) @ [Head i])" by simp
  with d assms(2) show ?thesis by (simp add: ring_def)
qed

lemma ring_attach_other:
  assumes "ring l i xs" and "ring l j ys" and "j \<noteq> i" and "v \<notin> set ys"
    and "set xs \<inter> set ys = {}"
  shows "ring (attach v i l) j ys"
proof (rule ring_frame [OF assms(2)])
  note n = ring_head_next [OF assms(1)]
  have dj: "x \<notin> nodes j ys" if "x \<in> nodes i xs" for x
    using that assms(3,5) by (auto simp: nodes_def)
  have vj: "Buf v \<notin> nodes j ys" "Head i \<notin> nodes j ys"
    using assms(3,4) by (auto simp: nodes_def)
  from n dj vj show "\<forall>x\<in>nodes j ys. next (attach v i l) x = next l x"
    by (auto simp: attach_def Let_def)
  from n dj vj show "\<forall>x\<in>nodes j ys. prev (attach v i l) x = prev l x"
    by (auto simp: attach_def Let_def)
qed

lemma rep_unlink:
  assumes "rep l bs" and "i < length bs" and "v \<in> set (bs ! i)"
  shows "rep (unlink v l) (bs[i := remove1 v (bs ! i)]) \<and>
         (\<forall>k<length bs. v \<notin> set (bs[i := remove1 v (bs ! i)] ! k))"
proof -
  from assms(1,2) have ri: "ring l i (bs ! i)" by (simp add: rep_def)
  then have di: "distinct (bs ! i)" by (simp add: ring_def)
  have dj: "set (bs ! i) \<inter> set (bs ! k) = {}" if "k < length bs" "k \<noteq> i" for k
    using assms(1,2) that by (simp add: rep_def)
  have a: "ring (unlink v l) k (bs[i := remove1 v (bs ! i)] ! k)" if k: "k < length bs" for k
  proof (cases "k = i")
    case True
    with assms(2) ring_unlink [OF ri assms(3)] show ?thesis by simp
  next
    case False
    from assms(1) k have "ring l k (bs ! k)" by (simp add: rep_def)
    from ring_unlink_other [OF ri assms(3) this False dj [OF k False]] False
    show ?thesis by simp
  qed
  have b: "set (bs[i := remove1 v (bs ! i)] ! j) \<inter> set (bs[i := remove1 v (bs ! i)] ! k) = {}"
    if "j < length bs" "k < length bs" "j \<noteq> k" for j k
  proof -
    have s: "set (bs[i := remove1 v (bs ! i)] ! m) \<subseteq> set (bs ! m)" if "m < length bs" for m
      using that set_remove1_subset [of v "bs ! i"] by (cases "m = i") simp_all
    from assms(1) that have "set (bs ! j) \<inter> set (bs ! k) = {}" by (simp add: rep_def)
    with s [OF that(1)] s [OF that(2)] show ?thesis by blast
  qed
  have c: "v \<notin> set (bs[i := remove1 v (bs ! i)] ! k)" if k: "k < length bs" for k
  proof (cases "k = i")
    case True
    with assms(2) di show ?thesis by simp
  next
    case False
    with dj [OF k False] assms(3) show ?thesis by auto
  qed
  from a b c show ?thesis by (simp add: rep_def)
qed

lemma rep_attach:
  assumes "rep l bs" and "bid < length bs" and "\<forall>k<length bs. v \<notin> set (bs ! k)"
  shows "rep (attach v bid l) (bs[bid := v # bs ! bid])"
proof -
  from assms(1,2) have rb: "ring l bid (bs ! bid)" by (simp add: rep_def)
  have dj: "set (bs ! bid) \<inter> set (bs ! k) = {}" if "k < length bs" "k \<noteq> bid" for k
    using assms(1,2) that by (simp add: rep_def)
  have a: "ring (attach v bid l) k (bs[bid := v # bs ! bid] ! k)" if k: "k < length bs" for k
  proof (cases "k = bid")
    case True
    with assms(2,3) ring_attach [OF rb, of v] show ?thesis by simp
  next
    case False
    from assms(1) k have "ring l k (bs ! k)" by (simp add: rep_def)
    from ring_attach_other [OF rb this False _ dj [OF k False], of v] assms(3) k False
    show ?thesis by simp
  qed
  have b: "set (bs[bid := v # bs ! bid] ! j) \<inter> set (bs[bid := v # bs ! bid] ! k) = {}"
    if "j < length bs" "k < length bs" "j \<noteq> k" for j k
  proof -
    from assms(1) that have "set (bs ! j) \<inter> set (bs ! k) = {}" by (simp add: rep_def)
    with assms(3) that show ?thesis
      by (cases "j = bid"; cases "k = bid") auto
  qed
  from a b show ?thesis by (simp add: rep_def)
qed

text \<open>
  So the pointer statements of the steal path turn links that represent \<open>bs\<close> into
  links that represent the buckets as \<open>steal\<close> updates them.
\<close>

lemma rep_steal:
  assumes "rep l bs" and "i < length bs" and "bid < length bs" and "i \<noteq> bid"
    and "v \<in> set (bs ! i)"
  shows "rep (attach v bid (unlink v l)) (bs[i := remove1 v (bs ! i), bid := v # bs ! bid])"
proof -
  let ?bs1 = "bs[i := remove1 v (bs ! i)]"
  from rep_unlink [OF assms(1,2,5)] have r: "rep (unlink v l) ?bs1"
    and n: "\<forall>k<length ?bs1. v \<notin> set (?bs1 ! k)" by simp_all
  from assms(3) have "bid < length ?bs1" by simp
  from rep_attach [OF r this n] assms(4) show ?thesis by simp
qed

text \<open>The loops over a bucket visit exactly the buffers of its list, in list order.\<close>

lemma linked_walk:
  "linked l (a # map Buf xs @ [Head i]) \<Longrightarrow> walk l i (next l a) (Suc (length xs)) = Some xs"
proof (induction xs arbitrary: a)
  case Nil
  then show ?case by simp
next
  case (Cons x xs)
  from Cons.prems have "next l a = Buf x" "linked l (Buf x # map Buf xs @ [Head i])" by simp_all
  with Cons.IH [of "Buf x"] show ?case by simp
qed

lemma ring_walk:
  assumes "ring l i xs"
  shows "walk l i (next l (Head i)) (Suc (length xs)) = Some xs"
proof -
  from assms have "linked l (Head i # map Buf xs @ [Head i])" by (simp add: ring_def)
  then show ?thesis by (rule linked_walk)
qed

text \<open>After \<^verbatim>\<open>binit\<close> all buffers are in bucket 0, the last one first, as in \<open>binit\<close>.\<close>

lemma insert_head_attach:
  "next l (Head 0) \<noteq> Buf b \<Longrightarrow> insert_head b l = attach b 0 l"
  by (simp add: insert_head_def attach_def Let_def fun_upd_twist)

lemma init_heads:
  "i < n \<Longrightarrow> next (fold init_head [0..<n] l) (Head i) = Head i \<and>
             prev (fold init_head [0..<n] l) (Head i) = Head i"
  by (induction n) (auto simp: init_head_def Let_def less_Suc_eq)

lemma rep_init_heads:
  "rep (fold init_head [0..<n] l) (replicate n [])"
  by (simp add: rep_def ring_def init_heads)

lemma rep_binit:
  assumes "0 < nbucket"
  shows "rep (binit_links nbuf nbucket) ((replicate nbucket [])[0 := rev [0..<nbuf]])"
  unfolding binit_links_def
proof (induction nbuf)
  case 0
  have "(replicate nbucket [])[0 := []] = replicate nbucket ([]::nat list)"
    by (cases nbucket) simp_all
  with rep_init_heads [of nbucket] show ?case by simp
next
  case (Suc n)
  let ?l = "fold insert_head [0..<n]
       (fold init_head [0..<nbucket] \<lparr>next = (\<lambda>_. Null), prev = (\<lambda>_. Null)\<rparr>)"
  let ?bs = "(replicate nbucket [])[0 := rev [0..<n]]"
  from assms have len: "0 < length ?bs" by simp
  from Suc have "\<forall>i<length ?bs. ring ?l i (?bs ! i)" unfolding rep_def by (rule conjunct1)
  with len have r: "ring ?l 0 (?bs ! 0)" by blast
  have o: "\<forall>k<length ?bs. n \<notin> set (?bs ! k)"
    by (auto simp: nth_list_update)
  then have "n \<notin> set (?bs ! 0)" using assms by simp
  with ring_head_next [OF r] have "next ?l (Head 0) \<noteq> Buf n" by blast
  then have "insert_head n ?l = attach n 0 ?l" by (rule insert_head_attach)
  moreover from rep_attach [OF Suc len o] have "rep (attach n 0 ?l) (?bs[0 := n # ?bs ! 0])" .
  ultimately show ?case using assms by simp
qed

section \<open>The claims\<close>

subsection \<open>C1\<close>




subsection \<open>C2\<close>

text \<open>
  C2, as stated: the first loop of \<^verbatim>\<open>bget\<close> returns a buffer only if its identity is the
  wanted one and its \<^verbatim>\<open>valid\<close> flag is set. The loop compares \<^verbatim>\<open>dev\<close> and \<^verbatim>\<open>blockno\<close>
  only: here the buffer found has \<open>valid = 0\<close> and is returned with one more reference
  (it cannot have been recycled, since its reference count was not 0).
\<close>

theorem hit_ignores_valid_counterexample:
  "valid (bufs c2_state 0) = 0 \<and>
   lookup (bufs c2_state) 1 0 (buckets c2_state ! 0) = Some 0 \<and>
   fst (bget 7 1 0 c2_state) = Inr 0 \<and>
   valid (bufs (snd (bget 7 1 0 c2_state)) 0) = 0 \<and>
   refcnt (bufs (snd (bget 7 1 0 c2_state)) 0) = 2"
  by (simp add: c2_state_def buf0_def bget_def myhash_def in_bounds_def NBUCKET_def prim_defs
      Let_def)

text \<open>
  C2, amended: when the first loop of \<^verbatim>\<open>bget\<close> finds a buffer, that buffer is the first
  one of the bucket, in list order, whose \<^verbatim>\<open>dev\<close> and \<^verbatim>\<open>blockno\<close> are the wanted ones,
  whatever its \<^verbatim>\<open>valid\<close> flag. \<^verbatim>\<open>bget\<close> adds one to its reference count, leaves
  \<^verbatim>\<open>valid\<close> and the buckets as they were, and returns it holding its sleep lock (or
  sleeps on that lock when a process holds it).
\<close>

theorem bget_hit:
  assumes "in_bounds s (myhash (NBUCKET s) bn)"
    and "lookup (bufs s) d bn (buckets s ! nat (myhash (NBUCKET s) bn)) = Some b"
  shows "dev (bufs s b) = d \<and> blockno (bufs s b) = bn \<and>
         (\<exists>ys zs. buckets s ! nat (myhash (NBUCKET s) bn) = ys @ b # zs \<and>
            (\<forall>c\<in>set ys. \<not> (dev (bufs s c) = d \<and> blockno (bufs s c) = bn))) \<and>
         fst (bget p d bn s) = (if lock (bufs s b) = None then Inr b else Inl (Sleeps b)) \<and>
         bufs (snd (bget p d bn s)) =
           (bufs s)(b := (if lock (bufs s b) = None
                          then (bufs s b)\<lparr>refcnt := refcnt (bufs s b) + 1, lock := Some p\<rparr>
                          else (bufs s b)\<lparr>refcnt := refcnt (bufs s b) + 1\<rparr>)) \<and>
         valid (bufs (snd (bget p d bn s)) b) = valid (bufs s b) \<and>
         buckets (snd (bget p d bn s)) = buckets s"
proof -
  note l = lookup_Some [OF assms(2)] lookup_first [OF assms(2)]
  have "bget p d bn s =
          lock_and_return p b
            (release (nat (myhash (NBUCKET s) bn))
              ((acquire (nat (myhash (NBUCKET s) bn)) s)
                 \<lparr>bufs := (bufs s)(b := (bufs s b)\<lparr>refcnt := refcnt (bufs s b) + 1\<rparr>)\<rparr>))"
    using assms by (simp add: bget_def Let_def acquire_def)
  then show ?thesis using l
    by (cases "lock (bufs s b)") (simp_all add: prim_defs Let_def)
qed

theorem bget_hit_witness:
  "in_bounds c2_state (myhash (NBUCKET c2_state) 0) \<and>
   lookup (bufs c2_state) 1 0 (buckets c2_state ! nat (myhash (NBUCKET c2_state) 0)) = Some 0 \<and>
   fst (bget 7 1 0 c2_state) = Inr 0 \<and>
   valid (bufs (snd (bget 7 1 0 c2_state)) 0) = valid (bufs c2_state 0)"
proof -
  have i: "in_bounds c2_state (myhash (NBUCKET c2_state) 0)"
    by (simp add: in_bounds_def myhash_def NBUCKET_def c2_state_def)
  have l: "lookup (bufs c2_state) 1 0 (buckets c2_state ! nat (myhash (NBUCKET c2_state) 0)) = Some 0"
    by (simp add: myhash_def NBUCKET_def c2_state_def buf0_def)
  have f: "lock (bufs c2_state 0) = None"
    by (simp add: c2_state_def buf0_def)
  show ?thesis
    using i l f bget_hit [OF i l, of 7] by simp
qed

subsection \<open>C3\<close>

text \<open>
  C3, as stated: \<^verbatim>\<open>bwrite\<close>, \<^verbatim>\<open>brelse\<close>, \<^verbatim>\<open>bpin\<close> and \<^verbatim>\<open>bunpin\<close> on a buffer whose sleep
  lock the caller does not hold all end in a panic. This fails for \<^verbatim>\<open>bpin\<close> and
  \<^verbatim>\<open>bunpin\<close>: on a buffer that process 7 does not hold they return normally and change
  the reference count.
\<close>

theorem pin_unpin_unchecked_counterexample:
  "\<not> holdingsleep 7 0 c3_state \<and>
   fst (bpin 0 c3_state) = Inr () \<and> refcnt (bufs (snd (bpin 0 c3_state)) 0) = 1 \<and>
   fst (bunpin 0 c3_state) = Inr () \<and> refcnt (bufs (snd (bunpin 0 c3_state)) 0) = - 1"
  by (simp add: c3_state_def buf0_def bpin_def bunpin_def holdingsleep_def myhash_def in_bounds_def
      NBUCKET_def acquire_def release_def Let_def)

text \<open>
  C3, amended: \<^verbatim>\<open>bwrite\<close> and \<^verbatim>\<open>brelse\<close> on a buffer whose sleep lock the caller does not
  hold panic (with the messages "bwrite" and "brelse") and leave the cache as it was;
  \<^verbatim>\<open>bpin\<close> and \<^verbatim>\<open>bunpin\<close> make no such check: they never panic, and whenever the
  bucket index of the buffer's block number is inside the arrays they return and add
  or subtract one from the reference count.
\<close>

theorem lock_check_bwrite_brelse_only:
  assumes "\<not> holdingsleep p b s"
  shows "bwrite p b s = (Inl (Panic ''bwrite''), s) \<and>
         brelse p b s = (Inl (Panic ''brelse''), s) \<and>
         (\<forall>m. fst (bpin b s) \<noteq> Inl (Panic m)) \<and>
         (\<forall>m. fst (bunpin b s) \<noteq> Inl (Panic m)) \<and>
         (in_bounds s (myhash (NBUCKET s) (blockno (bufs s b))) \<longrightarrow>
            fst (bpin b s) = Inr () \<and>
            refcnt (bufs (snd (bpin b s)) b) = refcnt (bufs s b) + 1 \<and>
            fst (bunpin b s) = Inr () \<and>
            refcnt (bufs (snd (bunpin b s)) b) = refcnt (bufs s b) - 1)"
  using assms
  by (simp add: bwrite_def brelse_def bpin_def bunpin_def acquire_def release_def Let_def)

theorem lock_check_bwrite_brelse_only_witness:
  "\<not> holdingsleep 7 0 c3_state \<and>
   in_bounds c3_state (myhash (NBUCKET c3_state) (blockno (bufs c3_state 0))) \<and>
   bwrite 7 0 c3_state = (Inl (Panic ''bwrite''), c3_state) \<and>
   brelse 7 0 c3_state = (Inl (Panic ''brelse''), c3_state) \<and>
   fst (bpin 0 c3_state) = Inr () \<and>
   refcnt (bufs (snd (bpin 0 c3_state)) 0) = 1 \<and>
   fst (bunpin 0 c3_state) = Inr () \<and>
   refcnt (bufs (snd (bunpin 0 c3_state)) 0) = - 1"
proof -
  have h: "\<not> holdingsleep 7 0 c3_state"
    by (simp add: holdingsleep_def c3_state_def buf0_def)
  have i: "in_bounds c3_state (myhash (NBUCKET c3_state) (blockno (bufs c3_state 0)))"
    by (simp add: in_bounds_def myhash_def NBUCKET_def c3_state_def buf0_def)
  have r: "refcnt (bufs c3_state 0) = 0"
    by (simp add: c3_state_def buf0_def)
  show ?thesis
    using h i r lock_check_bwrite_brelse_only [OF h] by simp
qed

subsection \<open>C4\<close>

text \<open>
  C4: a call of \<^verbatim>\<open>bget\<close> that does not find the block in its bucket, while no buffer of
  any bucket has reference count 0, panics with "bget: no buf"; no buffer and no bucket
  is changed. So when all N buffers are held by acquisitions that were never released,
  one more \<^verbatim>\<open>bget\<close> for a block that is not cached fails, and returns and changes
  nothing.
\<close>

theorem bget_no_free_buffer_panics:
  assumes "in_bounds s (myhash (NBUCKET s) bn)"
    and "\<forall>c\<in>set (buckets s ! nat (myhash (NBUCKET s) bn)).
           \<not> (dev (bufs s c) = d \<and> blockno (bufs s c) = bn)"
    and "\<forall>i<NBUCKET s. \<forall>c\<in>set (buckets s ! i). refcnt (bufs s c) \<noteq> 0"
  shows "fst (bget p d bn s) = Inl (Panic ''bget: no buf'') \<and>
         bufs (snd (bget p d bn s)) = bufs s \<and>
         buckets (snd (bget p d bn s)) = buckets s \<and>
         ticks (snd (bget p d bn s)) = ticks s \<and>
         disk (snd (bget p d bn s)) = disk s"
  using assms(1) refl
proof (cases rule: bget_cases [where d = d and p = p])
  case (hit b)
  from lookup_Some [OF hit(1)] assms(2) show ?thesis by blast
next
  case (local v)
  from scan_Some [OF local(2)] assms(3) in_bounds_less [OF assms(1)] show ?thesis by blast
next
  case (stolen evs i v)
  from scan_Some [OF stolen(5)] assms(3) stolen(3) show ?thesis by blast
next
  case (exhausted evs)
  then show ?thesis by simp
qed

theorem bget_no_free_buffer_panics_witness:
  "in_bounds c4_state (myhash (NBUCKET c4_state) 3) \<and>
   buckets c4_state = [[1], [0]] \<and>
   blockno (bufs c4_state 0) = 1 \<and> refcnt (bufs c4_state 0) = 1 \<and>
   blockno (bufs c4_state 1) = 2 \<and> refcnt (bufs c4_state 1) = 1 \<and>
   fst (bget 7 1 3 c4_state) = Inl (Panic ''bget: no buf'') \<and>
   bufs (snd (bget 7 1 3 c4_state)) = bufs c4_state \<and>
   buckets (snd (bget 7 1 3 c4_state)) = buckets c4_state"
proof -
  have i: "in_bounds c4_state (myhash (NBUCKET c4_state) 3)"
    by (simp add: c4_state_eq in_bounds_def myhash_def NBUCKET_def)
  have m: "\<forall>c\<in>set (buckets c4_state ! nat (myhash (NBUCKET c4_state) 3)).
      \<not> (dev (bufs c4_state c) = 1 \<and> blockno (bufs c4_state c) = 3)"
    by (simp add: c4_state_eq myhash_def NBUCKET_def)
  have h: "\<forall>i<NBUCKET c4_state. \<forall>c\<in>set (buckets c4_state ! i). refcnt (bufs c4_state c) \<noteq> 0"
    by (simp add: c4_state_eq NBUCKET_def less_Suc_eq eval_nat_numeral)
  have v: "buckets c4_state = [[1], [0]]"
    "blockno (bufs c4_state 0) = 1" "refcnt (bufs c4_state 0) = 1"
    "blockno (bufs c4_state 1) = 2" "refcnt (bufs c4_state 1) = 1"
    by (simp_all add: c4_state_eq buf0_def)
  show ?thesis
    using i v bget_no_free_buffer_panics [OF i m h, of 7] by simp
qed

subsection \<open>C5\<close>

text \<open>
  C5: whenever a victim loop of \<^verbatim>\<open>bget\<close> chooses a buffer, that buffer is in the bucket
  scanned and has reference count 0 at that moment; whenever \<^verbatim>\<open>bget\<close> misses and hands
  out a buffer (returning it, or going to sleep on its lock), that buffer had reference
  count 0 before the call; and a buffer whose reference count is not 0 keeps its
  \<^verbatim>\<open>dev\<close>, \<^verbatim>\<open>blockno\<close>, \<^verbatim>\<open>valid\<close> and data through any call of \<^verbatim>\<open>bget\<close>.
\<close>

theorem eviction_only_unreferenced:
  "(snd (scan (bufs s) xs t None) = Some v \<longrightarrow> v \<in> set xs \<and> refcnt (bufs s v) = 0) \<and>
   (in_bounds s (myhash (NBUCKET s) bn) \<and>
    lookup (bufs s) d bn (buckets s ! nat (myhash (NBUCKET s) bn)) = None \<and>
    (fst (bget p d bn s) = Inr v \<or> fst (bget p d bn s) = Inl (Sleeps v)) \<longrightarrow>
      refcnt (bufs s v) = 0) \<and>
   (refcnt (bufs s c) \<noteq> 0 \<longrightarrow>
      dev (bufs (snd (bget p d bn s)) c) = dev (bufs s c) \<and>
      blockno (bufs (snd (bget p d bn s)) c) = blockno (bufs s c) \<and>
      valid (bufs (snd (bget p d bn s)) c) = valid (bufs s c) \<and>
      data (bufs (snd (bget p d bn s)) c) = data (bufs s c))"
proof (intro conjI impI)
  assume "snd (scan (bufs s) xs t None) = Some v"
  from scan_Some [OF this] show "v \<in> set xs" and "refcnt (bufs s v) = 0" by simp_all
next
  assume a: "in_bounds s (myhash (NBUCKET s) bn) \<and>
    lookup (bufs s) d bn (buckets s ! nat (myhash (NBUCKET s) bn)) = None \<and>
    (fst (bget p d bn s) = Inr v \<or> fst (bget p d bn s) = Inl (Sleeps v))"
  then have i: "in_bounds s (myhash (NBUCKET s) bn)" by simp
  from i refl show "refcnt (bufs s v) = 0"
  proof (cases rule: bget_cases [where d = d and p = p])
    case (hit b)
    with a show ?thesis by simp
  next
    case (local w)
    with a have "w = v" by (simp add: lock_and_return_eq split: if_splits)
    with scan_Some [OF local(2)] show ?thesis by simp
  next
    case (stolen evs i w)
    with a have "w = v" by (simp add: lock_and_return_eq split: if_splits)
    with scan_Some [OF stolen(5)] show ?thesis by simp
  next
    case (exhausted evs)
    with a show ?thesis by simp
  qed
next
  assume r: "refcnt (bufs s c) \<noteq> 0"
  have "dev (bufs (snd (bget p d bn s)) c) = dev (bufs s c) \<and>
      blockno (bufs (snd (bget p d bn s)) c) = blockno (bufs s c) \<and>
      valid (bufs (snd (bget p d bn s)) c) = valid (bufs s c) \<and>
      data (bufs (snd (bget p d bn s)) c) = data (bufs s c)"
  proof (cases "in_bounds s (myhash (NBUCKET s) bn)")
    case False
    then show ?thesis by (simp add: bget_def Let_def)
  next
    case True
    from True refl show ?thesis
    proof (cases rule: bget_cases [where d = d and p = p])
      case (hit b)
      then show ?thesis by (simp add: lock_and_return_eq)
    next
      case (local w)
      with scan_Some [OF local(2)] r have "w \<noteq> c" by auto
      with local show ?thesis by (simp add: lock_and_return_eq)
    next
      case (stolen evs i w)
      with scan_Some [OF stolen(5)] r have "w \<noteq> c" by auto
      with stolen show ?thesis by (simp add: lock_and_return_eq)
    next
      case (exhausted evs)
      then show ?thesis by simp
    qed
  qed
  then show "dev (bufs (snd (bget p d bn s)) c) = dev (bufs s c)"
    and "blockno (bufs (snd (bget p d bn s)) c) = blockno (bufs s c)"
    and "valid (bufs (snd (bget p d bn s)) c) = valid (bufs s c)"
    and "data (bufs (snd (bget p d bn s)) c) = data (bufs s c)" by simp_all
qed

theorem eviction_only_unreferenced_witness:
  "snd (scan (bufs c6_state) [0, 1, 2] 9 None) = Some 2 \<and> refcnt (bufs c6_state 2) = 0 \<and>
   in_bounds c6_state (myhash (NBUCKET c6_state) 7) \<and>
   lookup (bufs c6_state) 1 7 (buckets c6_state ! nat (myhash (NBUCKET c6_state) 7)) = None \<and>
   fst (bget 5 1 7 c6_state) = Inr 2 \<and>
   refcnt (bufs c6_state 0) \<noteq> 0 \<and>
   dev (bufs (snd (bget 5 1 7 c6_state)) 0) = 1 \<and>
   blockno (bufs (snd (bget 5 1 7 c6_state)) 0) = 0 \<and>
   valid (bufs (snd (bget 5 1 7 c6_state)) 0) = 1"
proof -
  have a: "snd (scan (bufs c6_state) [0, 1, 2] 9 None) = Some 2"
    by (simp add: c6_state_def buf0_def)
  have i: "in_bounds c6_state (myhash (NBUCKET c6_state) 7)"
    by (simp add: c6_state_def in_bounds_def myhash_def NBUCKET_def)
  have l: "lookup (bufs c6_state) 1 7 (buckets c6_state ! nat (myhash (NBUCKET c6_state) 7)) = None"
    by (simp add: c6_state_def buf0_def myhash_def NBUCKET_def)
  have g: "fst (bget 5 1 7 c6_state) = Inr 2"
    by (simp add: c6_state_def buf0_def bget_def myhash_def in_bounds_def NBUCKET_def prim_defs
        Let_def)
  have r: "refcnt (bufs c6_state 0) \<noteq> 0" "dev (bufs c6_state 0) = 1"
    "blockno (bufs c6_state 0) = 0" "valid (bufs c6_state 0) = 1"
    by (simp_all add: c6_state_def buf0_def)
  show ?thesis
    using a i l g r
      eviction_only_unreferenced [of c6_state "[0, 1, 2]" 9 2 7 1 5 0]
    by simp
qed

subsection \<open>C6\<close>

text \<open>
  C6: on a miss with a buffer of reference count 0 in the bucket, \<^verbatim>\<open>bget\<close> is to recycle
  the one of least \<^verbatim>\<open>lastuse\<close>; the comment above the loop says the same ("Recycle the
  least recently used (LRU) unused buffer"). The loop starts its minimum at \<^verbatim>\<open>ticks\<close>
  and so never chooses a buffer whose stamp is ahead of the tick counter. The state
  \<open>wrapped_state\<close> is reached by \<^verbatim>\<open>binit\<close>, \<^verbatim>\<open>bget\<close> and \<^verbatim>\<open>brelse\<close> at tick
  \<open>0xffffffff\<close> and one more tick of the 32-bit counter. There \<^verbatim>\<open>bget\<close> for the block
  (1, 1) is inside the arrays and misses, the only buffer of the bucket is free and
  unlocked, and yet \<^verbatim>\<open>bget\<close> panics with "bget: no buf" and leaves the buffer with its
  old identity.
\<close>

theorem bget_passes_over_free_buffer:
  "wrapped_state =
     (let s = snd (brelse 7 0 (snd (bget 7 1 0 (binit 1 1 (- 1) (\<lambda>_. [])))))
      in s\<lparr>ticks := ticks s + 1\<rparr>) \<and>
   ticks wrapped_state = 0 \<and> buckets wrapped_state = [[0]] \<and>
   in_bounds wrapped_state (myhash (NBUCKET wrapped_state) 1) \<and>
   lookup (bufs wrapped_state) 1 1
     (buckets wrapped_state ! nat (myhash (NBUCKET wrapped_state) 1)) = None \<and>
   refcnt (bufs wrapped_state 0) = 0 \<and> lock (bufs wrapped_state 0) = None \<and>
   lastuse (bufs wrapped_state 0) = - 1 \<and>
   snd (scan (bufs wrapped_state) [0] (ticks wrapped_state) None) = None \<and>
   fst (bget 7 1 1 wrapped_state) = Inl (Panic ''bget: no buf'') \<and>
   bufs (snd (bget 7 1 1 wrapped_state)) = bufs wrapped_state \<and>
   dev (bufs (snd (bget 7 1 1 wrapped_state)) 0) = 1 \<and>
   blockno (bufs (snd (bget 7 1 1 wrapped_state)) 0) = 0 \<and>
   refcnt (bufs (snd (bget 7 1 1 wrapped_state)) 0) = 0"
proof -
  have e: "wrapped_state =
     \<lparr>bufs = (\<lambda>_. buf0)(0 := buf0\<lparr>dev := 1, blockno := 0, valid := 0, refcnt := 0,
                                       lock := None, lastuse := - 1\<rparr>),
      buckets = [[0]], ticks = 0, disk = (\<lambda>_. []),
      events = [Acquire 0, Release 0, AcquireSleep 0, ReleaseSleep 0, Acquire 0, Release 0]\<rparr>"
    by (simp add: wrapped_state_def binit_def buf0_def bget_def brelse_def myhash_def in_bounds_def
        NBUCKET_def prim_defs Let_def)
  have g: "bget 7 1 1 wrapped_state =
     (Inl (Panic ''bget: no buf''),
      wrapped_state\<lparr>events := events wrapped_state @ [Acquire 0, Release 0]\<rparr>)"
    unfolding e by (simp add: bget_def myhash_def in_bounds_def NBUCKET_def prim_defs Let_def)
  have w: "wrapped_state =
     (let s = snd (brelse 7 0 (snd (bget 7 1 0 (binit 1 1 (- 1) (\<lambda>_. [])))))
      in s\<lparr>ticks := ticks s + 1\<rparr>)"
    by (rule wrapped_state_def)
  have v: "ticks wrapped_state = 0" "buckets wrapped_state = [[0]]"
    "in_bounds wrapped_state (myhash (NBUCKET wrapped_state) 1)"
    "lookup (bufs wrapped_state) 1 1
       (buckets wrapped_state ! nat (myhash (NBUCKET wrapped_state) 1)) = None"
    "refcnt (bufs wrapped_state 0) = 0" "lock (bufs wrapped_state 0) = None"
    "lastuse (bufs wrapped_state 0) = - 1"
    "snd (scan (bufs wrapped_state) [0] (ticks wrapped_state) None) = None"
    "dev (bufs wrapped_state 0) = 1" "blockno (bufs wrapped_state 0) = 0"
    unfolding e by (simp_all add: myhash_def in_bounds_def NBUCKET_def buf0_def)
  from v show ?thesis unfolding g by (intro conjI w) simp_all
qed

subsection \<open>C7\<close>

text \<open>
  C7: \<^verbatim>\<open>bread\<close> returns what \<^verbatim>\<open>bget\<close> returns. \<^verbatim>\<open>bget\<close> makes no device transfer; after it
  \<^verbatim>\<open>bread\<close> makes exactly one, a read into the returned buffer, when that buffer has
  \<^verbatim>\<open>valid = 0\<close>, and none otherwise (nor when \<^verbatim>\<open>bget\<close> does not return). After a read
  \<^verbatim>\<open>valid\<close> is 1 and the data are the device's block \<open>(d, bn)\<close>. A buffer that \<^verbatim>\<open>bget\<close>
  returns valid is the cached one found in the bucket: \<^verbatim>\<open>bread\<close> adds nothing to what
  \<^verbatim>\<open>bget\<close> did, which is one more reference and the sleep lock taken. And when the
  bucket holds a valid buffer for the block, \<^verbatim>\<open>bread\<close> makes no device transfer at all
  and leaves the buffer's data and \<^verbatim>\<open>valid\<close> as they were.
\<close>

theorem bread_reads_iff_invalid:
  assumes "bget p d bn s = (r, s1)"
  shows "fst (bread p d bn s) = r \<and>
         (\<forall>c w. DiskRW c w \<notin> set (new_events s s1)) \<and>
         new_events s1 (snd (bread p d bn s)) =
           (case r of Inl f \<Rightarrow> []
            | Inr b \<Rightarrow> if valid (bufs s1 b) = 0 then [DiskRW b False] else []) \<and>
         (\<forall>b. r = Inr b \<longrightarrow>
            valid (bufs (snd (bread p d bn s)) b) \<noteq> 0 \<and>
            (valid (bufs s1 b) = 0 \<longrightarrow>
               valid (bufs (snd (bread p d bn s)) b) = 1 \<and>
               data (bufs (snd (bread p d bn s)) b) = disk s (d, bn)) \<and>
            (valid (bufs s1 b) \<noteq> 0 \<longrightarrow>
               snd (bread p d bn s) = s1 \<and>
               lookup (bufs s) d bn (buckets s ! nat (myhash (NBUCKET s) bn)) = Some b \<and>
               bufs s1 = (bufs s)(b := (bufs s b)\<lparr>refcnt := refcnt (bufs s b) + 1, lock := Some p\<rparr>) \<and>
               buckets s1 = buckets s)) \<and>
         (\<forall>b. in_bounds s (myhash (NBUCKET s) bn) \<and>
              lookup (bufs s) d bn (buckets s ! nat (myhash (NBUCKET s) bn)) = Some b \<and>
              valid (bufs s b) \<noteq> 0 \<longrightarrow>
                new_events s1 (snd (bread p d bn s)) = [] \<and>
                valid (bufs (snd (bread p d bn s)) b) = valid (bufs s b) \<and>
                data (bufs (snd (bread p d bn s)) b) = data (bufs s b))"
    (is "?a \<and> ?b \<and> ?c \<and> ?d \<and> ?cached")
proof -
  have main: "?a \<and> ?b \<and> ?c \<and> ?d"
  proof (cases r)
    case (Inl f)
    with assms bget_post [OF assms] show ?thesis
      by (simp add: bread_def new_events_def)
  next
    case (Inr b)
    note post = bget_post [OF assms]
    show ?thesis
    proof (cases "valid (bufs s1 b) = 0")
    case True
    with assms Inr have
      "bread p d bn s =
         (Inr b, s1\<lparr>bufs := (bufs s1)(b := (bufs s1 b)\<lparr>data := disk s1 (dev (bufs s1 b), blockno (bufs s1 b)),
                                                   valid := 1\<rparr>),
                    events := events s1 @ [DiskRW b False]\<rparr>)"
      by (simp add: bread_def virtio_disk_rw_def Let_def)
    with True Inr post show ?thesis by simp
  next
    case False
    with assms Inr have "bread p d bn s = (Inr b, s1)" by (simp add: bread_def)
    with False Inr post show ?thesis by (simp add: new_events_def)
  qed
  qed
  have cached: ?cached
  proof (intro allI impI)
    fix b
    assume a: "in_bounds s (myhash (NBUCKET s) bn) \<and>
              lookup (bufs s) d bn (buckets s ! nat (myhash (NBUCKET s) bn)) = Some b \<and>
              valid (bufs s b) \<noteq> 0"
    then have c: "fst (bget p d bn s) = (if lock (bufs s b) = None then Inr b else Inl (Sleeps b))"
      "valid (bufs (snd (bget p d bn s)) b) = valid (bufs s b)"
      "data (bufs (snd (bget p d bn s)) b) = data (bufs s b)"
      using bget_cached [of s bn d b p] by simp_all
    with a assms have "bread p d bn s = (r, s1)"
      by (cases "lock (bufs s b)") (simp_all add: bread_def)
    with c assms show "new_events s1 (snd (bread p d bn s)) = [] \<and>
                valid (bufs (snd (bread p d bn s)) b) = valid (bufs s b) \<and>
                data (bufs (snd (bread p d bn s)) b) = data (bufs s b)"
      by (simp add: new_events_def)
  qed
  from main cached show ?thesis by (elim conjE) (intro conjI; assumption)
qed

theorem bread_reads_iff_invalid_witness:
  "fst (bread 5 1 1 c7_state) = Inr 1 \<and>
   new_events (snd (bget 5 1 1 c7_state)) (snd (bread 5 1 1 c7_state)) = [] \<and>
   snd (bread 5 1 1 c7_state) = snd (bget 5 1 1 c7_state) \<and>
   fst (bread 5 1 0 c7_state) = Inr 0 \<and>
   new_events (snd (bget 5 1 0 c7_state)) (snd (bread 5 1 0 c7_state)) = [DiskRW 0 False] \<and>
   valid (bufs (snd (bread 5 1 0 c7_state)) 0) = 1 \<and>
   data (bufs (snd (bread 5 1 0 c7_state)) 0) = [9, 9] \<and>
   in_bounds c7_state (myhash (NBUCKET c7_state) 1) \<and>
   lookup (bufs c7_state) 1 1 (buckets c7_state ! nat (myhash (NBUCKET c7_state) 1)) = Some 1 \<and>
   valid (bufs c7_state 1) \<noteq> 0 \<and>
   data (bufs (snd (bread 5 1 1 c7_state)) 1) = [1, 2, 3]"
proof -
  have a: "fst (bget 5 1 1 c7_state) = Inr 1" "valid (bufs (snd (bget 5 1 1 c7_state)) 1) = 1"
    by (simp_all add: c7_state_def buf0_def bget_def myhash_def in_bounds_def NBUCKET_def prim_defs
        Let_def)
  have b: "fst (bget 5 1 0 c7_state) = Inr 0" "valid (bufs (snd (bget 5 1 0 c7_state)) 0) = 0"
    by (simp_all add: c7_state_def buf0_def bget_def myhash_def in_bounds_def NBUCKET_def prim_defs
        Let_def)
  have d: "disk c7_state (1, 0) = [9, 9]" by (simp add: c7_state_def)
  have c: "in_bounds c7_state (myhash (NBUCKET c7_state) 1)"
    "lookup (bufs c7_state) 1 1 (buckets c7_state ! nat (myhash (NBUCKET c7_state) 1)) = Some 1"
    "valid (bufs c7_state 1) \<noteq> 0" "data (bufs c7_state 1) = [1, 2, 3]"
    by (simp_all add: c7_state_def buf0_def myhash_def in_bounds_def NBUCKET_def)
  have e: "bget 5 1 1 c7_state = (fst (bget 5 1 1 c7_state), snd (bget 5 1 1 c7_state))"
    "bget 5 1 0 c7_state = (fst (bget 5 1 0 c7_state), snd (bget 5 1 0 c7_state))"
    by simp_all
  show ?thesis
    using a b c d bread_reads_iff_invalid [OF e(1)] bread_reads_iff_invalid [OF e(2)]
    by simp
qed

subsection \<open>C8\<close>

text \<open>
  C8: \<^verbatim>\<open>brelse\<close> on a buffer whose sleep lock the caller holds releases the sleep lock
  before it takes the bucket's spinlock, subtracts exactly one from the reference count,
  and sets \<^verbatim>\<open>lastuse\<close> to the current tick exactly when the count has reached zero;
  otherwise \<^verbatim>\<open>lastuse\<close> stays, and \<^verbatim>\<open>dev\<close>, \<^verbatim>\<open>blockno\<close>, \<^verbatim>\<open>valid\<close> and the data stay
  in both cases. Nothing else in the cache changes. (The bucket index computed from the
  block number has to be inside the arrays, as it is for every buffer \<^verbatim>\<open>bget\<close> returned.)
\<close>

theorem brelse_effect:
  assumes "holdingsleep p b s"
    and "in_bounds s (myhash (NBUCKET s) (blockno (bufs s b)))"
  shows "fst (brelse p b s) = Inr () \<and>
         events (snd (brelse p b s)) =
           events s @ [ReleaseSleep b,
                       Acquire (nat (myhash (NBUCKET s) (blockno (bufs s b)))),
                       Release (nat (myhash (NBUCKET s) (blockno (bufs s b))))] \<and>
         lock (bufs (snd (brelse p b s)) b) = None \<and>
         refcnt (bufs (snd (brelse p b s)) b) = refcnt (bufs s b) - 1 \<and>
         lastuse (bufs (snd (brelse p b s)) b) =
           (if refcnt (bufs s b) - 1 = 0 then ticks s else lastuse (bufs s b)) \<and>
         dev (bufs (snd (brelse p b s)) b) = dev (bufs s b) \<and>
         blockno (bufs (snd (brelse p b s)) b) = blockno (bufs s b) \<and>
         valid (bufs (snd (brelse p b s)) b) = valid (bufs s b) \<and>
         data (bufs (snd (brelse p b s)) b) = data (bufs s b) \<and>
         (\<forall>c. c \<noteq> b \<longrightarrow> bufs (snd (brelse p b s)) c = bufs s c) \<and>
         buckets (snd (brelse p b s)) = buckets s \<and>
         ticks (snd (brelse p b s)) = ticks s \<and>
         disk (snd (brelse p b s)) = disk s"
  using assms
  by (simp add: brelse_def Let_def acquire_def release_def releasesleep_def NBUCKET_def
      in_bounds_def)

theorem brelse_effect_witness:
  "holdingsleep 7 0 c10_state \<and>
   in_bounds c10_state (myhash (NBUCKET c10_state) (blockno (bufs c10_state 0))) \<and>
   fst (brelse 7 0 c10_state) = Inr () \<and>
   events (snd (brelse 7 0 c10_state)) = [ReleaseSleep 0, Acquire 0, Release 0] \<and>
   refcnt (bufs (snd (brelse 7 0 c10_state)) 0) = 1 \<and>
   lastuse (bufs (snd (brelse 7 0 c10_state)) 0) = 0 \<and>
   bufs (snd (brelse 7 0 c10_state)) 1 = bufs c10_state 1"
proof -
  have h: "holdingsleep 7 0 c10_state"
    by (simp add: holdingsleep_def c10_state_def)
  have i: "in_bounds c10_state (myhash (NBUCKET c10_state) (blockno (bufs c10_state 0)))"
    by (simp add: in_bounds_def myhash_def NBUCKET_def c10_state_def)
  have v: "refcnt (bufs c10_state 0) = 2" "lastuse (bufs c10_state 0) = 0"
    "events c10_state = []" "myhash (NBUCKET c10_state) (blockno (bufs c10_state 0)) = 0"
    by (simp_all add: c10_state_def buf0_def myhash_def NBUCKET_def)
  have n: "(2::uint) - 1 = 1" "(1::uint) \<noteq> 0" by simp_all
  show ?thesis
    using h i v n brelse_effect [OF h i] by simp
qed

subsection \<open>C9\<close>



subsection \<open>C10\<close>

text \<open>
  C10: \<^verbatim>\<open>bunpin\<close> subtracts one from the reference count and never writes \<^verbatim>\<open>lastuse\<close>,
  also when the count reaches zero, whereas \<^verbatim>\<open>brelse\<close> stamps the current tick then.
  The choice of a later victim depends on it: from \<open>c10_state\<close>, releasing and then
  unpinning buffer 0 leaves its \<^verbatim>\<open>lastuse\<close> at 0 and the next miss recycles buffer 0;
  unpinning and then releasing stamps tick 9 and the next miss recycles buffer 1.
\<close>

theorem bunpin_keeps_lastuse:
  "(\<forall>c. lastuse (bufs (snd (bunpin b s)) c) = lastuse (bufs s c)) \<and>
   (in_bounds s (myhash (NBUCKET s) (blockno (bufs s b))) \<longrightarrow>
      fst (bunpin b s) = Inr () \<and>
      bufs (snd (bunpin b s)) = (bufs s)(b := (bufs s b)\<lparr>refcnt := refcnt (bufs s b) - 1\<rparr>) \<and>
      buckets (snd (bunpin b s)) = buckets s) \<and>
   (holdingsleep p b s \<and> in_bounds s (myhash (NBUCKET s) (blockno (bufs s b))) \<and>
    refcnt (bufs s b) = 1 \<longrightarrow>
      refcnt (bufs (snd (bunpin b s)) b) = 0 \<and>
      lastuse (bufs (snd (bunpin b s)) b) = lastuse (bufs s b) \<and>
      refcnt (bufs (snd (brelse p b s)) b) = 0 \<and>
      lastuse (bufs (snd (brelse p b s)) b) = ticks s) \<and>
   fst (bget 7 1 2 (snd (bunpin 0 (snd (brelse 7 0 c10_state))))) = Inr 0 \<and>
   fst (bget 7 1 2 (snd (brelse 7 0 (snd (bunpin 0 c10_state))))) = Inr 1"
proof -
  have a: "\<forall>c. lastuse (bufs (snd (bunpin b s)) c) = lastuse (bufs s c)"
    by (simp add: bunpin_def Let_def acquire_def release_def)
  have b: "in_bounds s (myhash (NBUCKET s) (blockno (bufs s b))) \<longrightarrow>
      fst (bunpin b s) = Inr () \<and>
      bufs (snd (bunpin b s)) = (bufs s)(b := (bufs s b)\<lparr>refcnt := refcnt (bufs s b) - 1\<rparr>) \<and>
      buckets (snd (bunpin b s)) = buckets s"
    by (simp add: bunpin_def Let_def acquire_def release_def)
  have c: "holdingsleep p b s \<and> in_bounds s (myhash (NBUCKET s) (blockno (bufs s b))) \<and>
    refcnt (bufs s b) = 1 \<longrightarrow>
      refcnt (bufs (snd (bunpin b s)) b) = 0 \<and>
      lastuse (bufs (snd (bunpin b s)) b) = lastuse (bufs s b) \<and>
      refcnt (bufs (snd (brelse p b s)) b) = 0 \<and>
      lastuse (bufs (snd (brelse p b s)) b) = ticks s"
    by (simp add: bunpin_def brelse_def Let_def acquire_def release_def releasesleep_def
        NBUCKET_def in_bounds_def)
  have d: "fst (bget 7 1 2 (snd (bunpin 0 (snd (brelse 7 0 c10_state))))) = Inr 0"
    by (simp add: c10_state_def buf0_def bget_def bunpin_def brelse_def myhash_def in_bounds_def
        NBUCKET_def prim_defs Let_def)
  have e: "fst (bget 7 1 2 (snd (brelse 7 0 (snd (bunpin 0 c10_state))))) = Inr 1"
    by (simp add: c10_state_def buf0_def bget_def bunpin_def brelse_def myhash_def in_bounds_def
        NBUCKET_def prim_defs Let_def)
  from a b c d e show ?thesis by blast
qed

theorem bunpin_keeps_lastuse_witness:
  "holdingsleep 7 0 (snd (bunpin 0 c10_state)) \<and>
   in_bounds (snd (bunpin 0 c10_state))
     (myhash (NBUCKET (snd (bunpin 0 c10_state))) (blockno (bufs (snd (bunpin 0 c10_state)) 0))) \<and>
   refcnt (bufs (snd (bunpin 0 c10_state)) 0) = 1 \<and>
   fst (bunpin 0 (snd (bunpin 0 c10_state))) = Inr () \<and>
   refcnt (bufs (snd (bunpin 0 (snd (bunpin 0 c10_state)))) 0) = 0 \<and>
   lastuse (bufs (snd (bunpin 0 (snd (bunpin 0 c10_state)))) 0) = 0 \<and>
   refcnt (bufs (snd (brelse 7 0 (snd (bunpin 0 c10_state)))) 0) = 0 \<and>
   lastuse (bufs (snd (brelse 7 0 (snd (bunpin 0 c10_state)))) 0) = 9"
proof -
  have h: "holdingsleep 7 0 (snd (bunpin 0 c10_state))"
    by (simp add: holdingsleep_def bunpin_def Let_def acquire_def release_def c10_state_def)
  have i: "in_bounds (snd (bunpin 0 c10_state))
     (myhash (NBUCKET (snd (bunpin 0 c10_state))) (blockno (bufs (snd (bunpin 0 c10_state)) 0)))"
    by (simp add: in_bounds_def myhash_def NBUCKET_def bunpin_def Let_def acquire_def release_def
        c10_state_def)
  have v: "refcnt (bufs (snd (bunpin 0 c10_state)) 0) = 1"
    "lastuse (bufs (snd (bunpin 0 c10_state)) 0) = 0" "ticks (snd (bunpin 0 c10_state)) = 9"
    by (simp_all add: in_bounds_def myhash_def NBUCKET_def bunpin_def Let_def acquire_def
        release_def c10_state_def buf0_def)
  show ?thesis
    using h i v bunpin_keeps_lastuse [of 0 "snd (bunpin 0 c10_state)" 7] by simp
qed

end
